theory Spec2Isabelle
  imports Complex_Main
begin

section \<open>Numeric model\<close>

text \<open>
  The notebooks compute with NumPy's 64-bit floats. Rounding to the nearest double and the
  sign of zero are abstracted: a finite float is a real number. The three special values
  are kept, because the priors return \<open>-inf\<close> and the normalisation of an all-\<open>-inf\<close> grid
  produces \<open>nan\<close>. Inputs supplied by the caller (observations, parameter vectors, plot
  limits) are finite numbers, hence \<open>real\<close>.

  The likelihood and the symmetric prior square, multiply and divide their inputs, and
  there a finite input can leave the range of the doubles. A result of magnitude
  \<open>2^1024 - 2^970\<close> or more rounds to an infinity: this overflow is modelled for every
  element-wise operation of those two functions (\<open>np_add\<close>, \<open>np_sub\<close>, \<open>np_mul\<close>, \<open>np_div\<close>
  below). A result of magnitude \<open>2^-1075\<close> or less rounds to zero: this underflow is
  modelled for \<open>dy ** 2\<close>, the one value that the program divides by and takes the
  logarithm of, where zero in place of a tiny positive number turns the result into \<open>nan\<close>.
  Every other result that can round to zero is then an addend or a dividend, where zero
  in place of a number below \<open>2^-1074\<close> is rounding like any other. The sum of the terms
  of the likelihood overflows like the other operations, upwards. The accumulations
  \<open>np.sum\<close> and \<open>np.cumsum\<close> of the contour levels and the operations on the density grid
  are exact on finite values.
\<close>

datatype npfloat = Fin real | PosInf | NegInf | NaN

datatype error = ValueError | IndexError | OverflowError

text \<open>Sequencing of computations that may raise.\<close>

definition ebind :: "error + 'a \<Rightarrow> ('a \<Rightarrow> error + 'b) \<Rightarrow> error + 'b" where
  "ebind r f = (case r of Inl e \<Rightarrow> Inl e | Inr v \<Rightarrow> f v)"

fun sequence_err :: "(error + 'a) list \<Rightarrow> error + 'a list" where
  "sequence_err [] = Inr []"
| "sequence_err (r # rs) =
     (case r of Inl e \<Rightarrow> Inl e
      | Inr v \<Rightarrow> (case sequence_err rs of Inl e \<Rightarrow> Inl e | Inr vs \<Rightarrow> Inr (v # vs)))"

subsection \<open>IEEE arithmetic on the special values\<close>

fun fl_neg :: "npfloat \<Rightarrow> npfloat" where
  "fl_neg (Fin a) = Fin (- a)"
| "fl_neg PosInf = NegInf"
| "fl_neg NegInf = PosInf"
| "fl_neg NaN = NaN"

fun fl_add :: "npfloat \<Rightarrow> npfloat \<Rightarrow> npfloat" where
  "fl_add (Fin a) (Fin b) = Fin (a + b)"
| "fl_add NaN _ = NaN"
| "fl_add _ NaN = NaN"
| "fl_add PosInf NegInf = NaN"
| "fl_add NegInf PosInf = NaN"
| "fl_add PosInf _ = PosInf"
| "fl_add _ PosInf = PosInf"
| "fl_add NegInf _ = NegInf"
| "fl_add _ NegInf = NegInf"

definition fl_sub :: "npfloat \<Rightarrow> npfloat \<Rightarrow> npfloat" where
  "fl_sub a b = fl_add a (fl_neg b)"

text \<open>The sign of a value as \<open>-1\<close>, \<open>0\<close> or \<open>1\<close>; used for products and quotients with infinities.\<close>

fun fl_sign :: "npfloat \<Rightarrow> int" where
  "fl_sign (Fin a) = (if a < 0 then - 1 else if a = 0 then 0 else 1)"
| "fl_sign PosInf = 1"
| "fl_sign NegInf = - 1"
| "fl_sign NaN = 0"

definition signed_inf :: "int \<Rightarrow> npfloat" where
  "signed_inf s = (if s < 0 then NegInf else PosInf)"

fun fl_mul :: "npfloat \<Rightarrow> npfloat \<Rightarrow> npfloat" where
  "fl_mul (Fin a) (Fin b) = Fin (a * b)"
| "fl_mul NaN _ = NaN"
| "fl_mul _ NaN = NaN"
| "fl_mul a b =
     (if fl_sign a = 0 \<or> fl_sign b = 0 then NaN else signed_inf (fl_sign a * fl_sign b))"

text \<open>
  Division as NumPy does it on arrays: no exception, \<open>0/0\<close> and \<open>inf/inf\<close> are \<open>nan\<close>,
  a non-zero value over zero is an infinity (zero taken as positive), finite over infinite is zero.
\<close>

fun fl_div :: "npfloat \<Rightarrow> npfloat \<Rightarrow> npfloat" where
  "fl_div NaN _ = NaN"
| "fl_div _ NaN = NaN"
| "fl_div (Fin a) (Fin b) =
     (if b \<noteq> 0 then Fin (a / b) else if a = 0 then NaN else signed_inf (fl_sign (Fin a)))"
| "fl_div (Fin a) _ = Fin 0"
| "fl_div a (Fin b) = signed_inf (fl_sign a * (if b < 0 then - 1 else 1))"
| "fl_div _ _ = NaN"

text \<open>\<open>np.log\<close> and \<open>np.exp\<close>: warnings only, never an exception.\<close>

fun np_log :: "npfloat \<Rightarrow> npfloat" where
  "np_log (Fin a) = (if 0 < a then Fin (ln a) else if a = 0 then NegInf else NaN)"
| "np_log PosInf = PosInf"
| "np_log NegInf = NaN"
| "np_log NaN = NaN"

fun np_exp :: "npfloat \<Rightarrow> npfloat" where
  "np_exp (Fin a) = Fin (exp a)"
| "np_exp PosInf = PosInf"
| "np_exp NegInf = Fin 0"
| "np_exp NaN = NaN"

text \<open>
  The order NumPy sorts and searches by: the usual order on the extended reals, with
  \<open>nan\<close> after everything else.
\<close>

fun sort_less :: "npfloat \<Rightarrow> npfloat \<Rightarrow> bool" where
  "sort_less NaN _ = False"
| "sort_less _ NaN = True"
| "sort_less (Fin a) (Fin b) = (a < b)"
| "sort_less NegInf NegInf = False"
| "sort_less NegInf _ = True"
| "sort_less _ NegInf = False"
| "sort_less PosInf _ = False"
| "sort_less _ PosInf = True"


subsection \<open>The range of the doubles\<close>

text \<open>
  The greatest double is \<open>2^1024 - 2^971\<close> and the least positive one \<open>2^-1074\<close>. A real
  result is rounded to an infinity from \<open>max_round\<close> on and to zero up to \<open>min_round\<close>.
\<close>

definition max_round :: real where
  "max_round = 2 ^ 1024 - 2 ^ 970"

definition min_round :: real where
  "min_round = 1 / 2 ^ 1075"

fun overflow :: "npfloat \<Rightarrow> npfloat" where
  "overflow (Fin v) = (if max_round \<le> \<bar>v\<bar> then (if v < 0 then NegInf else PosInf) else Fin v)"
| "overflow a = a"

fun underflow :: "npfloat \<Rightarrow> npfloat" where
  "underflow (Fin v) = (if \<bar>v\<bar> \<le> min_round then Fin 0 else Fin v)"
| "underflow a = a"

definition np_add :: "npfloat \<Rightarrow> npfloat \<Rightarrow> npfloat" where
  "np_add a b = overflow (fl_add a b)"

definition np_sub :: "npfloat \<Rightarrow> npfloat \<Rightarrow> npfloat" where
  "np_sub a b = overflow (fl_sub a b)"

definition np_mul :: "npfloat \<Rightarrow> npfloat \<Rightarrow> npfloat" where
  "np_mul a b = overflow (fl_mul a b)"

definition np_div :: "npfloat \<Rightarrow> npfloat \<Rightarrow> npfloat" where
  "np_div a b = overflow (fl_div a b)"

text \<open>
  The overflow of a sum of terms each of which is above \<open>-1075\<close>: an array has fewer than
  \<open>2^63\<close> elements, so such a sum leaves the range of the doubles only upwards.
\<close>

fun overflow_up :: "npfloat \<Rightarrow> npfloat" where
  "overflow_up (Fin v) = (if max_round \<le> v then PosInf else Fin v)"
| "overflow_up a = a"

text \<open>\<open>a ** 2\<close> on a NumPy value is the product of \<open>a\<close> with itself.\<close>

definition np_square :: "npfloat \<Rightarrow> npfloat" where
  "np_square a = np_mul a a"

text \<open>
  A number in a parameter vector is a Python \<open>float\<close> or a NumPy \<open>float64\<close>. The two
  differ in \<open>**\<close>: a Python float raises \<open>OverflowError\<close> where the NumPy scalar returns
  \<open>inf\<close> with a warning.
\<close>

datatype scalar = PyFloat real | NpFloat real

fun scalar_value :: "scalar \<Rightarrow> real" where
  "scalar_value (PyFloat v) = v"
| "scalar_value (NpFloat v) = v"

fun scalar_square :: "scalar \<Rightarrow> error + npfloat" where
  "scalar_square (PyFloat v) =
     (if max_round \<le> v * v then Inl OverflowError else Inr (Fin (v * v)))"
| "scalar_square (NpFloat v) = Inr (np_square (Fin v))"

section \<open>The priors\<close>

text \<open>
  \<^verbatim>\<open>
  def log_flat_prior(theta):
      if np.all(np.abs(theta) < 1000):
          return 0
      else:
          return -np.inf  # log(0)
  \<close>
  No operation of the body can raise on a sequence of numbers.
\<close>

definition log_flat_prior :: "real list \<Rightarrow> npfloat" where
  "log_flat_prior theta = (if list_all (\<lambda>t. \<bar>t\<bar> < 1000) theta then Fin 0 else NegInf)"

text \<open>The same function under the name \<open>log_prior\<close> in the MCMC notebook.\<close>

definition log_prior :: "real list \<Rightarrow> npfloat" where
  "log_prior theta = (if list_all (\<lambda>t. \<bar>t\<bar> < 1000) theta then Fin 0 else NegInf)"

text \<open>Indexing a Python sequence with a non-negative index.\<close>

definition index :: "'a list \<Rightarrow> nat \<Rightarrow> error + 'a" where
  "index xs i = (if i < length xs then Inr (xs ! i) else Inl IndexError)"

text \<open>
  \<^verbatim>\<open>
  def log_symmetric_prior(theta):
      if np.abs(theta[0]) < 1000:
          return -1.5 * np.log(1 + theta[1] ** 2)
      else:
          return -np.inf  # log(0)
  \<close>
  \<open>theta[1]\<close> is read only in the first branch. The logarithm is finite of magnitude
  below 746 or \<open>inf\<close>, so the scaling by \<open>-1.5\<close> stays in range.
\<close>

definition log_symmetric_prior :: "scalar list \<Rightarrow> error + npfloat" where
  "log_symmetric_prior theta =
     ebind (index theta 0) (\<lambda>t0.
       if \<bar>scalar_value t0\<bar> < 1000
       then ebind (index theta 1) (\<lambda>t1.
            ebind (scalar_square t1) (\<lambda>sq.
              Inr (fl_mul (Fin (- 1.5)) (np_log (np_add (Fin 1) sq)))))
       else Inr NegInf)"

section \<open>Arrays\<close>

text \<open>
  One-dimensional arrays are lists. An element-wise binary operation on two arrays follows
  NumPy's broadcasting rule: equal lengths combine position by position, an array of length
  one is stretched, anything else raises \<open>ValueError\<close>.
\<close>

definition broadcast :: "('a \<Rightarrow> 'b \<Rightarrow> 'c) \<Rightarrow> 'a list \<Rightarrow> 'b list \<Rightarrow> error + 'c list" where
  "broadcast f xs ys =
     (if length xs = length ys then Inr (map2 f xs ys)
      else if length xs = 1 then Inr (map (f (hd xs)) ys)
      else if length ys = 1 then Inr (map (\<lambda>a. f a (hd ys)) xs)
      else Inl ValueError)"

text \<open>\<open>np.sum\<close> and \<open>np.cumsum\<close>: running addition from zero.\<close>

definition np_sum :: "npfloat list \<Rightarrow> npfloat" where
  "np_sum xs = foldl fl_add (Fin 0) xs"

fun cumsum_from :: "npfloat \<Rightarrow> npfloat list \<Rightarrow> npfloat list" where
  "cumsum_from acc [] = []"
| "cumsum_from acc (x # xs) = fl_add acc x # cumsum_from (fl_add acc x) xs"

definition np_cumsum :: "npfloat list \<Rightarrow> npfloat list" where
  "np_cumsum xs = cumsum_from (Fin 0) xs"

text \<open>\<open>np.max\<close>: raises on an empty array, and \<open>nan\<close> wins over every other value.\<close>

definition fl_max :: "npfloat \<Rightarrow> npfloat \<Rightarrow> npfloat" where
  "fl_max a b = (if a = NaN \<or> b = NaN then NaN else if sort_less a b then b else a)"

definition np_max :: "npfloat list \<Rightarrow> error + npfloat" where
  "np_max xs = (case xs of [] \<Rightarrow> Inl ValueError | x # rest \<Rightarrow> Inr (foldl fl_max x rest))"

text \<open>\<open>np.sort\<close>: ascending in the sorting order, \<open>nan\<close> last. The result of a sort is
  determined by the values, so insertion sort stands for NumPy's algorithm.\<close>

fun np_insort :: "npfloat \<Rightarrow> npfloat list \<Rightarrow> npfloat list" where
  "np_insort x [] = [x]"
| "np_insort x (y # ys) = (if sort_less y x then y # np_insort x ys else x # y # ys)"

definition np_sort :: "npfloat list \<Rightarrow> npfloat list" where
  "np_sort xs = foldr np_insort xs []"

text \<open>
  \<open>np.searchsorted(a, v)\<close> with the default \<open>side='left'\<close>: a binary search for the
  insertion point of \<open>v\<close>, comparing with the sorting order. The result lies in
  \<open>0 .. len(a)\<close>. Where the elements below \<open>v\<close> all come before the others, every
  binary search ends at the same position, the number of elements below \<open>v\<close>.
\<close>

function bsearch :: "npfloat list \<Rightarrow> npfloat \<Rightarrow> nat \<Rightarrow> nat \<Rightarrow> nat" where
  "bsearch a v lo hi =
     (if lo < hi
      then (let mid = lo + (hi - lo) div 2
            in if sort_less (a ! mid) v then bsearch a v (mid + 1) hi else bsearch a v lo mid)
      else lo)"
  by pat_completeness auto
termination
  by (relation "measure (\<lambda>(a, v, lo, hi). hi - lo)") auto

declare bsearch.simps [simp del]

definition searchsorted :: "npfloat list \<Rightarrow> npfloat \<Rightarrow> nat" where
  "searchsorted a v = bsearch a v 0 (length a)"

text \<open>\<open>np.linspace(start, stop)\<close>: 50 evenly spaced points, both ends included.\<close>

definition linspace :: "real \<times> real \<Rightarrow> real list" where
  "linspace limits = (case limits of (start, stop) \<Rightarrow>
     map (\<lambda>i. start + real i * ((stop - start) / 49)) [0..<50])"

section \<open>The likelihood and the posterior\<close>

text \<open>
  \<^verbatim>\<open>
  def log_likelihood(theta, x, y, dy):
      y_model = theta[0] + theta[1] * x
      return -0.5 * np.sum(np.log(2 * np.pi * dy ** 2) +
                           (y - y_model) ** 2 / dy ** 2)
  \<close>
  \<open>x\<close>, \<open>y\<close> and \<open>dy\<close> are arrays, so every operation but the indexing of \<open>theta\<close> is
  element-wise on NumPy values and raises nothing but the \<open>ValueError\<close> of broadcasting.
  \<open>dy ** 2\<close> is the list \<open>var\<close>, each element a \<open>variance\<close>: the square of a sigma with
  its rounding to zero. Every term of the sum is the logarithm of a positive double, which
  is above \<open>-1075\<close>, plus a non-negative quotient, or \<open>inf\<close> or \<open>nan\<close>; \<open>np.sum\<close> is the sum of
  the terms with its overflow. The scaling by \<open>-0.5\<close> halves the sum.
\<close>

definition variance :: "real \<Rightarrow> npfloat" where
  "variance d = underflow (np_square (Fin d))"

definition log_likelihood :: "real list \<Rightarrow> real list \<Rightarrow> real list \<Rightarrow> real list \<Rightarrow> error + npfloat" where
  "log_likelihood theta x y dy =
     ebind (index theta 0) (\<lambda>t0.
     ebind (index theta 1) (\<lambda>t1.
       let y_model = map (\<lambda>xi. np_add (Fin t0) (np_mul (Fin t1) (Fin xi))) x;
           var = map variance dy;
           logs = map (\<lambda>v. np_log (np_mul (Fin (2 * pi)) v)) var
       in ebind (broadcast np_sub (map Fin y) y_model) (\<lambda>resid.
          ebind (broadcast np_div (map np_square resid) var) (\<lambda>quot.
          ebind (broadcast np_add logs quot) (\<lambda>terms.
            Inr (fl_mul (Fin (- 0.5)) (overflow_up (np_sum terms))))))))"

text \<open>
  Names for the parts of the summand, used in the statements about \<open>log_likelihood\<close>: the
  residual \<open>y - y_model\<close> of one observation, and the term
  \<open>np.log(2 * np.pi * dy ** 2) + (y - y_model) ** 2 / dy ** 2\<close> of one sigma and one residual.
\<close>

definition residual :: "real \<Rightarrow> real \<Rightarrow> real \<Rightarrow> real \<Rightarrow> npfloat" where
  "residual t0 t1 xi yi = np_sub (Fin yi) (np_add (Fin t0) (np_mul (Fin t1) (Fin xi)))"

definition gauss_term :: "real \<Rightarrow> npfloat \<Rightarrow> npfloat" where
  "gauss_term d r =
     np_add (np_log (np_mul (Fin (2 * pi)) (variance d))) (np_div (np_square r) (variance d))"

text \<open>
  \<^verbatim>\<open>
  def log_posterior(theta, x, y, dy):
      return log_prior(theta) + log_likelihood(theta, x, y, dy)
  \<close>
\<close>

definition log_posterior :: "real list \<Rightarrow> real list \<Rightarrow> real list \<Rightarrow> real list \<Rightarrow> error + npfloat" where
  "log_posterior theta x y dy =
     (let p = log_prior theta
      in ebind (log_likelihood theta x y dy) (\<lambda>l. Inr (fl_add p l)))"

section \<open>Contour levels\<close>

text \<open>
  \<^verbatim>\<open>
  def contour_levels(grid):
      sorted_ = np.sort(grid.ravel())[::-1]
      pct = np.cumsum(sorted_) / np.sum(sorted_)
      cutoffs = np.searchsorted(pct, np.array([0.68, 0.95, 0.997]) ** 2)
      return sorted_[cutoffs]
  \<close>
  A two-dimensional array is a list of rows; \<open>ravel\<close> is \<open>concat\<close>. Indexing with a cutoff
  equal to the length raises \<open>IndexError\<close>. The local \<open>sorted_\<close> is \<open>srt\<close> here.

  The three targets are squares of doubles computed in doubles, constants of the program:
  \<open>0.68 ** 2\<close> is the double \<open>0.4624000000000001\<close>, above the real number \<open>0.4624\<close>;
  \<open>0.95 ** 2\<close> is the double nearest to \<open>0.9025\<close>, below it; \<open>0.997 ** 2\<close> is the double
  nearest to \<open>0.994009\<close>, above it. They are written as the fractions these doubles are.
\<close>

definition targets :: "real list" where
  "targets = [8329857870784471 / 2 ^ 54, 8128997327403745 / 2 ^ 53, 8953237124005839 / 2 ^ 53]"

definition contour_levels :: "npfloat list list \<Rightarrow> error + npfloat list" where
  "contour_levels grid =
     (let srt = rev (np_sort (concat grid));
          total = np_sum srt;
          pct = map (\<lambda>c. fl_div c total) (np_cumsum srt);
          cutoffs = map (\<lambda>t. searchsorted pct (Fin t)) targets
      in sequence_err (map (index srt) cutoffs))"

text \<open>
  The algorithm in the words of the specification, on finite values: flatten, sort in
  descending order, divide the running sums by the total, and for each of the target mass
  fractions \<open>0.68\<^sup>2\<close>, \<open>0.95\<^sup>2\<close>, \<open>0.997\<^sup>2\<close>, real numbers, take the value at the first
  position whose cumulative fraction is at least the target. \<open>None\<close> when some target is
  reached at no position.
\<close>

definition spec_targets :: "real list" where
  "spec_targets = [0.68\<^sup>2, 0.95\<^sup>2, 0.997\<^sup>2]"

definition cumulative_fraction :: "real list \<Rightarrow> nat \<Rightarrow> real" where
  "cumulative_fraction s i = sum_list (take (Suc i) s) / sum_list s"

definition level_for :: "real list \<Rightarrow> real \<Rightarrow> real option" where
  "level_for s t =
     map_option (\<lambda>i. s ! i) (find (\<lambda>i. t \<le> cumulative_fraction s i) [0..<length s])"

definition spec_contour_levels :: "real list list \<Rightarrow> real list option" where
  "spec_contour_levels grid =
     (let s = rev (sort (concat grid));
          ls = map (level_for s) spec_targets
      in if list_all (\<lambda>l. l \<noteq> None) ls then Some (map the ls) else None)"

text \<open>
  A grid is clear of the targets when no cumulative fraction of its sorted values lies
  within \<open>2^-20\<close> of a target mass fraction. The rounding of the running sums and of the
  quotient moves a cumulative fraction of a grid of fewer than \<open>2^30\<close> non-negative values
  by less than \<open>2^-22\<close>, and the double targets differ from the real ones by less than \<open>2^-52\<close>.
\<close>

definition clear_of_targets :: "real list list \<Rightarrow> bool" where
  "clear_of_targets grid =
     (let s = rev (sort (concat grid))
      in list_all (\<lambda>i. list_all (\<lambda>t. 1 / 2 ^ 20 \<le> \<bar>cumulative_fraction s i - t\<bar>) spec_targets)
           [0..<length s])"

section \<open>The grid evaluation\<close>

text \<open>
  \<^verbatim>\<open>
  def plot_results(x, y, dy, slope_limits=(0.3, 0.7), intercept_limits=(15, 35)):
      slope_range = np.linspace(*slope_limits)
      intercept_range = np.linspace(*intercept_limits)
      log_P1 = [[log_likelihood([b, m], x, y, dy) + log_flat_prior([b, m])
                 for m in slope_range] for b in intercept_range]
      log_P2 = [[log_likelihood([b, m], x, y, dy) + log_symmetric_prior([b, m])
                 for m in slope_range] for b in intercept_range]
      P1 = np.exp(log_P1 - np.max(log_P1))
      P2 = np.exp(log_P2 - np.max(log_P2))
      ...
      ax[0].contourf(slope_range, intercept_range, P1, 100, cmap='Blues')
      ax[0].contour(slope_range, intercept_range, P1, contour_levels(P1), colors='black')
      ax[1].contourf(slope_range, intercept_range, P2, 100, cmap='Blues')
      ax[1].contour(slope_range, intercept_range, P2, contour_levels(P1), colors='black')
  \<close>
  The two comprehensions and the normalisation are named after the variables they define.
  \<open>b\<close> and \<open>m\<close> are elements of NumPy arrays, hence NumPy scalars.
  The function returns nothing; its result here is what it hands to the plotting library:
  for each panel the density grid drawn with \<open>contourf\<close> and the levels given to \<open>contour\<close>.
\<close>

definition log_P1 :: "real list \<Rightarrow> real list \<Rightarrow> real list \<Rightarrow> real list \<Rightarrow> real list \<Rightarrow> error + npfloat list list" where
  "log_P1 x y dy slope_range intercept_range =
     sequence_err (map (\<lambda>b. sequence_err (map (\<lambda>m.
       ebind (log_likelihood [b, m] x y dy) (\<lambda>l. Inr (fl_add l (log_flat_prior [b, m]))))
       slope_range)) intercept_range)"

definition log_P2 :: "real list \<Rightarrow> real list \<Rightarrow> real list \<Rightarrow> real list \<Rightarrow> real list \<Rightarrow> error + npfloat list list" where
  "log_P2 x y dy slope_range intercept_range =
     sequence_err (map (\<lambda>b. sequence_err (map (\<lambda>m.
       ebind (log_likelihood [b, m] x y dy) (\<lambda>l.
       ebind (log_symmetric_prior [NpFloat b, NpFloat m]) (\<lambda>p. Inr (fl_add l p))))
       slope_range)) intercept_range)"

text \<open>\<open>np.exp(log_P - np.max(log_P))\<close>\<close>

definition normalized :: "npfloat list list \<Rightarrow> error + npfloat list list" where
  "normalized log_P =
     ebind (np_max (concat log_P)) (\<lambda>mx. Inr (map (map (\<lambda>v. np_exp (fl_sub v mx))) log_P))"

record panels =
  ax0_density :: "npfloat list list"
  ax0_levels :: "npfloat list"
  ax1_density :: "npfloat list list"
  ax1_levels :: "npfloat list"

definition plot_results :: "real list \<Rightarrow> real list \<Rightarrow> real list \<Rightarrow> real \<times> real \<Rightarrow> real \<times> real \<Rightarrow> error + panels" where
  "plot_results x y dy slope_limits intercept_limits =
     (let slope_range = linspace slope_limits;
          intercept_range = linspace intercept_limits
      in ebind (log_P1 x y dy slope_range intercept_range) (\<lambda>lp1.
         ebind (log_P2 x y dy slope_range intercept_range) (\<lambda>lp2.
         ebind (normalized lp1) (\<lambda>P1.
         ebind (normalized lp2) (\<lambda>P2.
         ebind (contour_levels P1) (\<lambda>levels0.
         ebind (contour_levels P1) (\<lambda>levels1.
           Inr \<lparr>ax0_density = P1, ax0_levels = levels0,
                ax1_density = P2, ax1_levels = levels1\<rparr>)))))))"

section \<open>Synthetic data\<close>

text \<open>
  The pseudo-random generator is NumPy's. It is taken as a parameter: a state seeded from an
  integer, and one step for each kind of draw. \<open>RandomState(seed)\<close> accepts seeds from
  \<open>0\<close> to \<open>2^32 - 1\<close>; \<open>rand(n)\<close> and \<open>randn(n)\<close> draw \<open>n\<close> values one after the other and
  raise \<open>ValueError\<close> for a negative \<open>n\<close>.
\<close>

record 'g generator =
  seed_state :: "int \<Rightarrow> 'g"
  next_uniform :: "'g \<Rightarrow> real \<times> 'g"
  next_normal :: "'g \<Rightarrow> real \<times> 'g"

fun draw :: "('g \<Rightarrow> real \<times> 'g) \<Rightarrow> nat \<Rightarrow> 'g \<Rightarrow> real list \<times> 'g" where
  "draw step 0 g = ([], g)"
| "draw step (Suc n) g =
     (case step g of (v, g1) \<Rightarrow> (case draw step n g1 of (vs, g2) \<Rightarrow> (v # vs, g2)))"

definition RandomState :: "'g generator \<Rightarrow> int \<Rightarrow> error + 'g" where
  "RandomState G rseed =
     (if 0 \<le> rseed \<and> rseed < 2 ^ 32 then Inr (seed_state G rseed) else Inl ValueError)"

definition rand :: "'g generator \<Rightarrow> 'g \<Rightarrow> int \<Rightarrow> error + real list \<times> 'g" where
  "rand G g n = (if n < 0 then Inl ValueError else Inr (draw (next_uniform G) (nat n) g))"

definition randn :: "'g generator \<Rightarrow> 'g \<Rightarrow> int \<Rightarrow> error + real list \<times> 'g" where
  "randn G g n = (if n < 0 then Inl ValueError else Inr (draw (next_normal G) (nat n) g))"

text \<open>
  \<^verbatim>\<open>
  def make_data(intercept, slope, N=20, dy=5, rseed=42):
      rand = np.random.RandomState(rseed)
      x = 100 * rand.rand(N)
      y = intercept + slope * x
      y += dy * rand.randn(N)
      return x, y, dy * np.ones_like(x)
  \<close>
\<close>

definition make_data :: "'g generator \<Rightarrow> real \<Rightarrow> real \<Rightarrow> int \<Rightarrow> real \<Rightarrow> int \<Rightarrow> error + real list \<times> real list \<times> real list" where
  "make_data G intercept slope N dy rseed =
     ebind (RandomState G rseed) (\<lambda>g0.
     ebind (rand G g0 N) (\<lambda>(u, g1).
       let x = map (\<lambda>v. 100 * v) u;
           y = map (\<lambda>xi. intercept + slope * xi) x
       in ebind (randn G g1 N) (\<lambda>(z, g2).
          ebind (broadcast (+) y (map (\<lambda>v. dy * v) z)) (\<lambda>y'.
            Inr (x, y', map (\<lambda>_. dy * 1) x)))))"

text \<open>
  \<^verbatim>\<open>
  def make_data_scatter(intercept, slope, scatter, N=20, dy=2, rseed=42):
      rand = np.random.RandomState(rseed)
      x = 100 * rand.rand(20)
      y = intercept + slope * x
      y += np.sqrt(dy ** 2 + scatter ** 2) * rand.randn(20)
      return x, y, dy * np.ones_like(x)
  \<close>
  The body draws 20 values whatever \<open>N\<close> is.
\<close>

definition make_data_scatter :: "'g generator \<Rightarrow> real \<Rightarrow> real \<Rightarrow> real \<Rightarrow> int \<Rightarrow> real \<Rightarrow> int \<Rightarrow> error + real list \<times> real list \<times> real list" where
  "make_data_scatter G intercept slope scatter N dy rseed =
     ebind (RandomState G rseed) (\<lambda>g0.
     ebind (rand G g0 20) (\<lambda>(u, g1).
       let x = map (\<lambda>v. 100 * v) u;
           y = map (\<lambda>xi. intercept + slope * xi) x
       in ebind (randn G g1 20) (\<lambda>(z, g2).
          ebind (broadcast (+) y (map (\<lambda>v. sqrt (dy\<^sup>2 + scatter\<^sup>2) * v) z)) (\<lambda>y'.
            Inr (x, y', map (\<lambda>_. dy * 1) x)))))"


section \<open>Properties of the range model\<close>

lemma ebind_Inr [simp]: "ebind (Inr v) f = f v"
  by (simp add: ebind_def)

lemma ebind_Inl [simp]: "ebind (Inl e) f = Inl e"
  by (simp add: ebind_def)

lemma max_round_large: "2 ^ 1023 < max_round"
  by (simp add: max_round_def)

lemma min_round_small: "0 < min_round" "min_round < 1 / 2 ^ 1074"
  by (simp_all add: min_round_def)

lemma overflow_id: "\<bar>v\<bar> \<le> 2 ^ 1023 \<Longrightarrow> overflow (Fin v) = Fin v"
  using max_round_large by simp

lemma underflow_id: "1 / 2 ^ 1074 \<le> \<bar>v\<bar> \<Longrightarrow> underflow (Fin v) = Fin v"
  using min_round_small by auto

lemma np_mul_in_range: "\<bar>a * b\<bar> \<le> 2 ^ 1023 \<Longrightarrow> np_mul (Fin a) (Fin b) = Fin (a * b)"
  by (simp only: np_mul_def fl_mul.simps overflow_id)

lemma np_add_in_range: "\<bar>a + b\<bar> \<le> 2 ^ 1023 \<Longrightarrow> np_add (Fin a) (Fin b) = Fin (a + b)"
  by (simp only: np_add_def fl_add.simps overflow_id)

lemma np_sub_in_range: "\<bar>a - b\<bar> \<le> 2 ^ 1023 \<Longrightarrow> np_sub (Fin a) (Fin b) = Fin (a - b)"
  by (simp add: np_sub_def fl_sub_def overflow_id del: overflow.simps)

lemma np_div_in_range:
  "b \<noteq> 0 \<Longrightarrow> \<bar>a / b\<bar> \<le> 2 ^ 1023 \<Longrightarrow> np_div (Fin a) (Fin b) = Fin (a / b)"
  by (simp add: np_div_def overflow_id del: overflow.simps)

text \<open>A square of a NumPy value that is not \<open>nan\<close> is a non-negative number or \<open>inf\<close>.\<close>

lemma np_square_Fin:
  "np_square (Fin v) = PosInf \<and> max_round \<le> v * v
   \<or> np_square (Fin v) = Fin (v * v) \<and> v * v < max_round"
proof -
  have "0 \<le> v * v" by simp
  then show ?thesis
    by (auto simp: np_square_def np_mul_def abs_mult)
qed

text \<open>The square of a sigma overflows, rounds to zero, or is the positive number it is.\<close>

lemma variance_cases:
  "variance d = PosInf \<and> max_round \<le> d * d
   \<or> variance d = Fin 0 \<and> d * d \<le> min_round
   \<or> variance d = Fin (d * d) \<and> min_round < d * d \<and> d * d < max_round"
proof -
  have nn: "\<bar>d * d\<bar> = d * d" by simp
  from np_square_Fin [of d] show ?thesis
  proof (elim disjE conjE)
    assume "np_square (Fin d) = PosInf" "max_round \<le> d * d"
    then show ?thesis by (simp add: variance_def)
  next
    assume v: "np_square (Fin d) = Fin (d * d)" "d * d < max_round"
    show ?thesis
    proof (cases "d * d \<le> min_round")
      case True
      with v show ?thesis by (simp add: variance_def nn del: abs_mult_self_eq)
    next
      case False
      with v show ?thesis by (simp add: variance_def nn del: abs_mult_self_eq)
    qed
  qed
qed

lemma np_square_class:
  assumes "r \<noteq> NaN"
  shows "np_square r = PosInf \<or> (\<exists>w. 0 \<le> w \<and> np_square r = Fin w)"
proof (cases r)
  case (Fin v)
  from np_square_Fin [of v] show ?thesis unfolding Fin by auto
qed (use assms in \<open>simp_all add: np_square_def np_mul_def signed_inf_def\<close>)

lemma variance_abs: "variance \<bar>d\<bar> = variance d"
  by (simp add: variance_def np_square_def np_mul_def)

section \<open>Properties of the priors\<close>

text \<open>
  C6: for every parameter vector, \<open>log_flat_prior\<close> (and its copy \<open>log_prior\<close>) returns 0
  when every component has absolute value strictly below 1000 and \<open>-inf\<close> otherwise; it is a
  total function with no error result. In particular the value at \<open>[999, 5]\<close> is 0 and the
  value at \<open>[1001, 5]\<close> is \<open>-inf\<close>.
\<close>

theorem log_flat_prior_spec:
  "log_flat_prior theta = (if (\<forall>t \<in> set theta. \<bar>t\<bar> < 1000) then Fin 0 else NegInf)
   \<and> log_prior theta = log_flat_prior theta
   \<and> log_flat_prior [999, 5] = Fin 0
   \<and> log_flat_prior [1001, 5] = NegInf"
proof -
  have "log_flat_prior theta = (if (\<forall>t \<in> set theta. \<bar>t\<bar> < 1000) then Fin 0 else NegInf)"
    by (simp add: log_flat_prior_def list_all_iff)
  moreover have "log_prior theta = log_flat_prior theta"
    by (simp add: log_flat_prior_def log_prior_def)
  moreover have "log_flat_prior [999, 5] = Fin 0" "log_flat_prior [1001, 5] = NegInf"
    by (simp_all add: log_flat_prior_def)
  ultimately show ?thesis by blast
qed

theorem log_flat_prior_spec_witness:
  "log_flat_prior [999, 5] = Fin 0 \<and> log_prior [1000, 5] = NegInf"
  using log_flat_prior_spec [of "[999, 5]"] log_flat_prior_spec [of "[1000, 5]"]
  by simp


lemma log_symmetric_prior_pair:
  "log_symmetric_prior [b, m] =
     (if \<bar>scalar_value b\<bar> < 1000
      then ebind (scalar_square m) (\<lambda>sq. Inr (fl_mul (Fin (- 1.5)) (np_log (np_add (Fin 1) sq))))
      else Inr NegInf)"
  by (simp add: log_symmetric_prior_def index_def)

lemma square_in_range:
  fixes v :: real
  assumes hi: "\<bar>v\<bar> < 2 ^ 511"
  shows "v * v < 2 ^ 1022"
proof -
  have sq: "v * v = \<bar>v\<bar>\<^sup>2" by (simp add: power2_eq_square)
  have "\<bar>v\<bar>\<^sup>2 < (2 ^ 511)\<^sup>2" using hi by (intro power_strict_mono) simp_all
  moreover have "((2::real) ^ 511)\<^sup>2 = 2 ^ 1022" by (simp add: power_mult [symmetric])
  ultimately show "v * v < 2 ^ 1022" unfolding sq by simp
qed

lemma square_overflows:
  fixes v :: real
  assumes "2 ^ 512 \<le> \<bar>v\<bar>"
  shows "max_round \<le> v * v"
proof -
  have "(2 ^ 512)\<^sup>2 \<le> \<bar>v\<bar>\<^sup>2" using assms by (intro power_mono) simp_all
  moreover have "((2::real) ^ 512)\<^sup>2 = 2 ^ 1024" by (simp add: power_mult [symmetric])
  moreover have "max_round \<le> 2 ^ 1024" by (simp add: max_round_def)
  ultimately show ?thesis by (simp add: power2_eq_square)
qed

lemma scalar_square_in_range:
  assumes "\<bar>scalar_value m\<bar> < 2 ^ 511"
  shows "scalar_square m = Inr (Fin (scalar_value m * scalar_value m))"
proof -
  define v where "v = scalar_value m"
  from square_in_range [of v] assms have r: "v * v < 2 ^ 1022"
    unfolding v_def .
  have nn: "0 \<le> v * v" by simp
  from r max_round_large have lt: "v * v < max_round" by simp
  show ?thesis
  proof (cases m)
    case (PyFloat w)
    then have "w = v" by (simp add: v_def)
    with PyFloat lt nn show ?thesis by auto
  next
    case (NpFloat w)
    then have "w = v" by (simp add: v_def)
    with NpFloat lt nn show ?thesis by (auto simp: np_square_def np_mul_def abs_mult)
  qed
qed

lemma scalar_square_overflow:
  assumes "2 ^ 512 \<le> \<bar>scalar_value m\<bar>"
  shows "scalar_square m = (case m of PyFloat _ \<Rightarrow> Inl OverflowError | NpFloat _ \<Rightarrow> Inr PosInf)"
proof -
  from square_overflows [OF assms] have "max_round \<le> scalar_value m * scalar_value m" .
  then show ?thesis
    by (cases m) (simp_all add: np_square_def np_mul_def abs_mult)
qed

lemma log_symmetric_prior_mid:
  assumes b: "\<bar>scalar_value c\<bar> < 1000" and hi: "\<bar>scalar_value s\<bar> < 2 ^ 511"
  shows "log_symmetric_prior [c, s] = Inr (Fin (- 1.5 * ln (1 + (scalar_value s)\<^sup>2)))"
proof -
  define v where "v = scalar_value s"
  from square_in_range [of v] hi have "v * v < 2 ^ 1022" unfolding v_def .
  moreover have "0 \<le> v * v" by simp
  ultimately have "\<bar>1 + v * v\<bar> \<le> 2 ^ 1023" by simp
  then have add: "np_add (Fin 1) (Fin (v * v)) = Fin (1 + v * v)"
    by (rule np_add_in_range)
  have pos: "0 < 1 + v * v" by (simp add: add_pos_nonneg)
  have "log_symmetric_prior [c, s] = Inr (fl_mul (Fin (- 1.5)) (np_log (Fin (1 + v * v))))"
    using b scalar_square_in_range [OF hi]
    by (simp add: log_symmetric_prior_pair v_def [symmetric] add)
  then show ?thesis
    using pos by (simp add: v_def power2_eq_square)
qed

text \<open>On NumPy scalars the symmetric prior raises nothing and is finite or \<open>-inf\<close>.\<close>

lemma log_symmetric_prior_np:
  "\<exists>q. log_symmetric_prior [NpFloat b, NpFloat m] = Inr q \<and> q \<noteq> NaN \<and> q \<noteq> PosInf
       \<and> (1000 \<le> \<bar>b\<bar> \<longrightarrow> q = NegInf)"
proof (cases "\<bar>b\<bar> < 1000")
  case False
  then show ?thesis by (simp add: log_symmetric_prior_pair)
next
  case True
  have "fl_mul (Fin (- 1.5)) (np_log (np_add (Fin 1) (np_square (Fin m)))) \<noteq> NaN
      \<and> fl_mul (Fin (- 1.5)) (np_log (np_add (Fin 1) (np_square (Fin m)))) \<noteq> PosInf"
    using np_square_Fin [of m]
  proof (elim disjE conjE)
    assume "np_square (Fin m) = PosInf"
    then show ?thesis by (simp add: np_add_def signed_inf_def)
  next
    assume v: "np_square (Fin m) = Fin (m * m)"
    have p: "0 < 1 + m * m" by (simp add: add_pos_nonneg)
    show ?thesis
    proof (cases "max_round \<le> 1 + m * m")
      case True
      with p show ?thesis unfolding v by (simp add: np_add_def signed_inf_def)
    next
      case False
      with p show ?thesis unfolding v by (simp add: np_add_def)
    qed
  qed
  with True show ?thesis by (simp add: log_symmetric_prior_pair)
qed

text \<open>
  C7, as the code has it: for a two-component vector \<open>[intercept, slope]\<close> of floats,
  \<open>log_symmetric_prior\<close> returns \<open>-inf\<close> when \<open>|intercept| \<ge> 1000\<close>. When \<open>|intercept| < 1000\<close>
  it returns \<open>-1.5 * log (1 + slope\<^sup>2)\<close> as long as the square of the slope stays in the range
  of the doubles (\<open>|slope| < 2^511\<close>); when the square overflows (\<open>|slope| \<ge> 2^512\<close>) a Python
  float slope raises \<open>OverflowError\<close> and a NumPy slope gives \<open>-inf\<close>. The value at \<open>[0, 0]\<close>
  is 0 and the value at \<open>[0, 1]\<close> is \<open>-1.5 * log 2\<close>.
\<close>

theorem log_symmetric_prior_in_range:
  "(1000 \<le> \<bar>scalar_value b\<bar> \<longrightarrow> log_symmetric_prior [b, m] = Inr NegInf)
   \<and> (\<bar>scalar_value b\<bar> < 1000 \<and> \<bar>scalar_value m\<bar> < 2 ^ 511
      \<longrightarrow> log_symmetric_prior [b, m] = Inr (Fin (- 1.5 * ln (1 + (scalar_value m)\<^sup>2))))
   \<and> (\<bar>scalar_value b\<bar> < 1000 \<and> 2 ^ 512 \<le> \<bar>scalar_value m\<bar>
      \<longrightarrow> log_symmetric_prior [b, m]
          = (case m of PyFloat _ \<Rightarrow> Inl OverflowError | NpFloat _ \<Rightarrow> Inr NegInf))
   \<and> log_symmetric_prior [PyFloat 0, PyFloat 0] = Inr (Fin 0)
   \<and> log_symmetric_prior [PyFloat 0, PyFloat 1] = Inr (Fin (- 1.5 * ln 2))"
proof -
  have far: "log_symmetric_prior [b, m] = Inr NegInf" if "1000 \<le> \<bar>scalar_value b\<bar>"
    using that by (simp add: log_symmetric_prior_pair)
  note mid = log_symmetric_prior_mid
  have big: "log_symmetric_prior [b, m]
      = (case m of PyFloat _ \<Rightarrow> Inl OverflowError | NpFloat _ \<Rightarrow> Inr NegInf)"
    if "\<bar>scalar_value b\<bar> < 1000" "2 ^ 512 \<le> \<bar>scalar_value m\<bar>"
    using that(1) scalar_square_overflow [OF that(2)]
    by (cases m) (simp_all add: log_symmetric_prior_pair np_add_def signed_inf_def)
  have zero: "log_symmetric_prior [PyFloat 0, PyFloat 0] = Inr (Fin 0)"
    using mid [of "PyFloat 0" "PyFloat 0"] by simp
  have one: "log_symmetric_prior [PyFloat 0, PyFloat 1] = Inr (Fin (- 1.5 * ln 2))"
    using mid [of "PyFloat 0" "PyFloat 1"] by simp
  from far mid [of b m] big zero one show ?thesis by blast
qed

theorem log_symmetric_prior_in_range_witness:
  "log_symmetric_prior [NpFloat 1000, NpFloat 3] = Inr NegInf
   \<and> log_symmetric_prior [PyFloat (- 999), PyFloat 1] = Inr (Fin (- 1.5 * ln 2))
   \<and> log_symmetric_prior [NpFloat 0, NpFloat (2 ^ 512)] = Inr NegInf
   \<and> log_symmetric_prior [PyFloat 0, PyFloat (2 ^ 512)] = Inl OverflowError"
  using log_symmetric_prior_in_range [of "NpFloat 1000" "NpFloat 3"]
    log_symmetric_prior_in_range [of "PyFloat (- 999)" "PyFloat 1"]
    log_symmetric_prior_in_range [of "NpFloat 0" "NpFloat (2 ^ 512)"]
    log_symmetric_prior_in_range [of "PyFloat 0" "PyFloat (2 ^ 512)"]
  by simp

text \<open>
  The claim C7 as written fails: with intercept 0 and slope \<open>2^600\<close> the claimed value
  \<open>-1.5 * log (1 + 2^1200)\<close> is finite, and the call raises \<open>OverflowError\<close> on Python floats
  and returns \<open>-inf\<close> on NumPy floats.
\<close>

theorem slope_square_overflow_counterexample:
  "log_symmetric_prior [PyFloat 0, PyFloat (2 ^ 600)] = Inl OverflowError
   \<and> log_symmetric_prior [NpFloat 0, NpFloat (2 ^ 600)] = Inr NegInf"
proof -
  have "max_round \<le> 2 ^ 600 * 2 ^ 600"
    by (simp add: max_round_def)
  then show ?thesis
    by (simp add: log_symmetric_prior_pair np_square_def np_mul_def np_add_def signed_inf_def)
qed


section \<open>Properties of the likelihood\<close>

lemma sequence_err_Inr: "sequence_err (map (\<lambda>x. Inr (f x)) xs) = Inr (map f xs)"
  by (induction xs) simp_all

lemma broadcast_same: "length xs = length ys \<Longrightarrow> broadcast f xs ys = Inr (map2 f xs ys)"
  by (simp add: broadcast_def)

lemma foldl_fl_add_Fin: "foldl fl_add (Fin a) (map Fin xs) = Fin (a + sum_list xs)"
  by (induction xs arbitrary: a) (simp_all add: add.assoc)

lemma np_sum_Fin: "np_sum (map Fin xs) = Fin (sum_list xs)"
  by (simp add: np_sum_def foldl_fl_add_Fin)

lemma fl_add_NaN_right [simp]: "fl_add a NaN = NaN"
  by (cases a) simp_all

lemma foldl_fl_add_NaN: "foldl fl_add NaN xs = NaN"
  by (induction xs) simp_all

lemma foldl_fl_add_has_NaN: "NaN \<in> set xs \<Longrightarrow> foldl fl_add a xs = NaN"
  by (induction xs arbitrary: a) (auto simp: foldl_fl_add_NaN)

lemma np_sum_has_NaN: "NaN \<in> set xs \<Longrightarrow> np_sum xs = NaN"
  by (simp add: np_sum_def foldl_fl_add_has_NaN)

subsection \<open>The term of one observation\<close>

lemma residual_not_NaN: "residual t0 t1 xi yi \<noteq> NaN"
  by (simp add: residual_def np_sub_def np_add_def np_mul_def fl_sub_def)

lemma ln_lower:
  assumes "min_round < u"
  shows "- 1075 \<le> ln u"
proof -
  have pos: "0 < min_round" by (rule min_round_small)
  have "ln min_round = - (1075 * ln 2)"
    unfolding min_round_def
    by (simp only: inverse_eq_divide [symmetric] ln_inverse ln_realpow of_nat_numeral)
  moreover have "ln (2::real) \<le> 1" using ln_2_less_1 by simp
  ultimately have "- 1075 \<le> ln min_round" by simp
  moreover have "ln min_round \<le> ln u" using assms pos by simp
  ultimately show ?thesis by simp
qed

lemma log_part_class:
  assumes "min_round < v" "v < max_round"
  shows "np_log (np_mul (Fin (2 * pi)) (Fin v)) = PosInf
       \<or> (\<exists>l. - 1075 \<le> l \<and> np_log (np_mul (Fin (2 * pi)) (Fin v)) = Fin l)"
proof -
  have pos: "0 < min_round" by (rule min_round_small)
  have "1 \<le> 2 * pi" using pi_ge_two by simp
  then have "v \<le> 2 * pi * v" using assms(1) pos by simp
  with assms(1) have big: "min_round < 2 * pi * v" by simp
  with pos have p: "0 < 2 * pi * v" by simp
  show ?thesis
  proof (cases "max_round \<le> 2 * pi * v")
    case True
    with p show ?thesis by (simp add: np_mul_def)
  next
    case False
    with p have "np_mul (Fin (2 * pi)) (Fin v) = Fin (2 * pi * v)"
      by (simp add: np_mul_def)
    with p ln_lower [OF big] show ?thesis by simp
  qed
qed

lemma quot_class:
  assumes v: "0 < v" and s: "s = PosInf \<or> (\<exists>w. 0 \<le> w \<and> s = Fin w)"
  shows "np_div s (Fin v) = PosInf \<or> (\<exists>q. 0 \<le> q \<and> np_div s (Fin v) = Fin q)"
  using s
proof
  assume "s = PosInf"
  with v show ?thesis by (simp add: np_div_def signed_inf_def)
next
  assume "\<exists>w. 0 \<le> w \<and> s = Fin w"
  then obtain w where w: "0 \<le> w" "s = Fin w" by blast
  define q where "q = w / v"
  have q: "0 \<le> q" using v w(1) by (simp add: q_def)
  have "np_div s (Fin v) = overflow (Fin q)"
    using v by (simp add: np_div_def w(2) q_def)
  also have "\<dots> = PosInf \<or> \<dots> = Fin q"
    using q by auto
  finally show ?thesis using q by auto
qed

lemma add_class:
  assumes "- 1075 \<le> l" "0 \<le> q"
  shows "np_add (Fin l) (Fin q) = PosInf
       \<or> (\<exists>v. - 1075 \<le> v \<and> np_add (Fin l) (Fin q) = Fin v)"
proof -
  have "- max_round < - 1075" using max_round_large by simp
  with assms have "\<not> (max_round \<le> \<bar>l + q\<bar> \<and> l + q < 0)" by arith
  moreover from assms have "- 1075 \<le> l + q" by simp
  ultimately show ?thesis by (auto simp: np_add_def)
qed

text \<open>
  The term of a sigma whose square rounds to zero is \<open>nan\<close>; the term of a sigma whose square
  overflows is \<open>nan\<close> or \<open>inf\<close>; the term of any other sigma is finite or \<open>inf\<close>.
\<close>

lemma gauss_term_class:
  assumes r: "r \<noteq> NaN"
  shows "d * d \<le> min_round \<Longrightarrow> gauss_term d r = NaN"
    and "max_round \<le> d * d \<Longrightarrow> gauss_term d r = NaN \<or> gauss_term d r = PosInf"
    and "min_round < d * d \<Longrightarrow> d * d < max_round
         \<Longrightarrow> gauss_term d r = PosInf \<or> (\<exists>v. - 1075 \<le> v \<and> gauss_term d r = Fin v)"
proof -
  note sq = np_square_class [OF r]
  have pos: "0 < min_round" by (rule min_round_small)
  have big: "min_round < max_round" using max_round_large min_round_small(2) by simp
  show "gauss_term d r = NaN" if "d * d \<le> min_round"
  proof -
    from that big variance_cases [of d] have v: "variance d = Fin 0" by auto
    have "np_log (np_mul (Fin (2 * pi)) (Fin 0)) = NegInf"
      using pos big by (simp add: np_mul_def)
    moreover have "np_div (np_square r) (Fin 0) = NaN \<or> np_div (np_square r) (Fin 0) = PosInf"
      using sq
    proof
      assume "np_square r = PosInf"
      then show ?thesis by (simp add: np_div_def signed_inf_def)
    next
      assume "\<exists>w. 0 \<le> w \<and> np_square r = Fin w"
      then obtain w where w: "0 \<le> w" "np_square r = Fin w" by blast
      show ?thesis
      proof (cases "w = 0")
        case True
        with w show ?thesis by (simp add: np_div_def)
      next
        case False
        with w have "0 < w" by simp
        with w show ?thesis by (simp add: np_div_def signed_inf_def)
      qed
    qed
    ultimately show ?thesis
      unfolding gauss_term_def v by (auto simp: np_add_def)
  qed
  show "gauss_term d r = NaN \<or> gauss_term d r = PosInf" if "max_round \<le> d * d"
  proof -
    from that big variance_cases [of d] have v: "variance d = PosInf" by auto
    have "np_log (np_mul (Fin (2 * pi)) PosInf) = PosInf"
      by (simp add: np_mul_def signed_inf_def)
    moreover have "np_div (np_square r) PosInf = NaN \<or> np_div (np_square r) PosInf = Fin 0"
      using sq pos big by (auto simp: np_div_def)
    ultimately show ?thesis
      unfolding gauss_term_def v using big pos by (auto simp: np_add_def)
  qed
  show "gauss_term d r = PosInf \<or> (\<exists>v. - 1075 \<le> v \<and> gauss_term d r = Fin v)"
    if lo: "min_round < d * d" and hi: "d * d < max_round"
  proof -
    from lo hi variance_cases [of d] have v: "variance d = Fin (d * d)" by auto
    from lo pos have dpos: "0 < d * d" by simp
    note lg = log_part_class [OF lo hi]
    note qt = quot_class [OF dpos sq]
    from lg qt show ?thesis
      unfolding gauss_term_def v
    proof (elim disjE exE conjE)
      fix l q assume "- 1075 \<le> l" "0 \<le> q"
        and e: "np_log (np_mul (Fin (2 * pi)) (Fin (d * d))) = Fin l"
           "np_div (np_square r) (Fin (d * d)) = Fin q"
      then show "np_add (np_log (np_mul (Fin (2 * pi)) (Fin (d * d))))
                   (np_div (np_square r) (Fin (d * d))) = PosInf
          \<or> (\<exists>v. - 1075 \<le> v \<and> np_add (np_log (np_mul (Fin (2 * pi)) (Fin (d * d))))
                   (np_div (np_square r) (Fin (d * d))) = Fin v)"
        unfolding e by (intro add_class)
    qed (auto simp: np_add_def)
  qed
qed

text \<open>With a sigma in range, a residual whose square overflows makes the term \<open>inf\<close>.\<close>

lemma gauss_term_residual_overflow:
  assumes lo: "min_round < d * d" and hi: "d * d < max_round" and r: "np_square r = PosInf"
  shows "gauss_term d r = PosInf"
proof -
  from lo hi variance_cases [of d] have v: "variance d = Fin (d * d)" by auto
  from lo min_round_small(1) have dpos: "0 < d * d" by simp
  have q: "np_div PosInf (Fin (d * d)) = PosInf"
    using dpos by (simp add: np_div_def signed_inf_def)
  from log_part_class [OF lo hi] show ?thesis
    unfolding gauss_term_def v r q by (auto simp: np_add_def)
qed


subsection \<open>Observation sets of equal lengths\<close>

lemma log_likelihood_same:
  assumes th: "2 \<le> length theta" and len: "length y = length x" "length dy = length x"
  shows "log_likelihood theta x y dy =
    Inr (fl_mul (Fin (- 0.5)) (overflow_up (np_sum (map (\<lambda>i.
      gauss_term (dy ! i) (residual (theta ! 0) (theta ! 1) (x ! i) (y ! i))) [0..<length x]))))"
proof -
  let ?t0 = "theta ! 0" and ?t1 = "theta ! 1"
  let ?ym = "map (\<lambda>xi. np_add (Fin ?t0) (np_mul (Fin ?t1) (Fin xi))) x"
  let ?var = "map variance dy"
  let ?logs = "map (\<lambda>v. np_log (np_mul (Fin (2 * pi)) v)) ?var"
  let ?resid = "map2 np_sub (map Fin y) ?ym"
  let ?quot = "map2 np_div (map np_square ?resid) ?var"
  let ?terms = "map2 np_add ?logs ?quot"
  have idx: "index theta 0 = Inr ?t0" "index theta 1 = Inr ?t1"
    using th by (auto simp: index_def)
  have terms: "?terms = map (\<lambda>i.
      gauss_term (dy ! i) (residual ?t0 ?t1 (x ! i) (y ! i))) [0..<length x]"
  proof (rule nth_equalityI)
    show "length ?terms = length (map (\<lambda>i.
      gauss_term (dy ! i) (residual ?t0 ?t1 (x ! i) (y ! i))) [0..<length x])"
      using len by simp
  next
    fix i assume "i < length ?terms"
    then have i: "i < length x" using len by simp
    then show "?terms ! i = map (\<lambda>i.
      gauss_term (dy ! i) (residual ?t0 ?t1 (x ! i) (y ! i))) [0..<length x] ! i"
      using len by (simp add: gauss_term_def residual_def)
  qed
  have "log_likelihood theta x y dy = Inr (fl_mul (Fin (- 0.5)) (overflow_up (np_sum ?terms)))"
    unfolding log_likelihood_def Let_def idx
    using len by (simp add: broadcast_same)
  then show ?thesis unfolding terms .
qed

lemma log_likelihood_empty: "2 \<le> length theta \<Longrightarrow> log_likelihood theta [] [] [] = Inr (Fin 0)"
  using log_likelihood_same [of theta "[]" "[]" "[]"] max_round_large by (simp add: np_sum_def)

lemma log_likelihood_abs: "log_likelihood theta x y (map abs dy) = log_likelihood theta x y dy"
proof -
  have "map variance (map abs dy) = map variance dy"
    by (simp add: variance_abs)
  then show ?thesis
    unfolding log_likelihood_def by (simp only:)
qed

lemma log_likelihood_underflow:
  assumes th: "2 \<le> length theta" and len: "length y = length x" "length dy = length x"
    and z: "\<exists>d \<in> set dy. d * d \<le> min_round"
  shows "log_likelihood theta x y dy = Inr NaN"
proof -
  let ?ts = "map (\<lambda>i. gauss_term (dy ! i) (residual (theta ! 0) (theta ! 1) (x ! i) (y ! i)))
               [0..<length x]"
  from z obtain i where i: "i < length dy" "dy ! i * dy ! i \<le> min_round"
    by (auto simp: in_set_conv_nth)
  have "gauss_term (dy ! i) (residual (theta ! 0) (theta ! 1) (x ! i) (y ! i)) = NaN"
    by (rule gauss_term_class(1) [OF residual_not_NaN i(2)])
  moreover have "i < length x" using i len by simp
  ultimately have "?ts ! i = NaN" "i < length ?ts" by simp_all
  then have "NaN \<in> set ?ts" by (metis nth_mem)
  then have "np_sum ?ts = NaN" by (rule np_sum_has_NaN)
  then show ?thesis
    unfolding log_likelihood_same [OF th len] by simp
qed

subsection \<open>Magnitudes in range\<close>

lemma square_bounds:
  fixes v :: real
  assumes "1 / 2 ^ 200 \<le> \<bar>v\<bar>" "\<bar>v\<bar> \<le> 2 ^ 200"
  shows "1 / 2 ^ 400 \<le> v * v" and "v * v \<le> 2 ^ 400"
proof -
  have sq: "v * v = \<bar>v\<bar>\<^sup>2" by (simp add: power2_eq_square)
  have "(1 / 2 ^ 200)\<^sup>2 \<le> \<bar>v\<bar>\<^sup>2" using assms(1) by (intro power_mono) simp_all
  moreover have "(1 / 2 ^ 200 :: real)\<^sup>2 = 1 / 2 ^ 400"
    by (simp add: power_divide power_mult [symmetric])
  ultimately show "1 / 2 ^ 400 \<le> v * v" unfolding sq by simp
  have "\<bar>v\<bar>\<^sup>2 \<le> (2 ^ 200)\<^sup>2" using assms(2) by (intro power_mono) simp_all
  moreover have "((2::real) ^ 200)\<^sup>2 = 2 ^ 400" by (simp add: power_mult [symmetric])
  ultimately show "v * v \<le> 2 ^ 400" unfolding sq by simp
qed

lemma residual_in_range:
  assumes t0: "\<bar>t0\<bar> \<le> 2 ^ 200" and p: "\<bar>t1 * xi\<bar> \<le> 2 ^ 200" and y: "\<bar>yi\<bar> \<le> 2 ^ 200"
  shows "residual t0 t1 xi yi = Fin (yi - (t0 + t1 * xi))"
    and "\<bar>yi - (t0 + t1 * xi)\<bar> \<le> 2 ^ 202"
proof -
  have large: "(2 ^ 200 :: real) \<le> 2 ^ 1021" by simp
  have "\<bar>t1 * xi\<bar> \<le> 2 ^ 1023" using p large by simp
  then have m: "np_mul (Fin t1) (Fin xi) = Fin (t1 * xi)"
    by (rule np_mul_in_range)
  have "\<bar>t0 + t1 * xi\<bar> \<le> 2 ^ 1023" using t0 p large by simp
  then have a: "np_add (Fin t0) (Fin (t1 * xi)) = Fin (t0 + t1 * xi)"
    by (rule np_add_in_range)
  have "\<bar>yi - (t0 + t1 * xi)\<bar> \<le> 2 ^ 1023" using t0 p y large by simp
  then have s: "np_sub (Fin yi) (Fin (t0 + t1 * xi)) = Fin (yi - (t0 + t1 * xi))"
    by (rule np_sub_in_range)
  show "residual t0 t1 xi yi = Fin (yi - (t0 + t1 * xi))"
    unfolding residual_def m a s ..
  show "\<bar>yi - (t0 + t1 * xi)\<bar> \<le> 2 ^ 202" using t0 p y by simp
qed

lemma gauss_term_in_range:
  assumes d: "1 / 2 ^ 200 \<le> \<bar>d\<bar>" "\<bar>d\<bar> \<le> 2 ^ 200" and r: "\<bar>r\<bar> \<le> 2 ^ 202"
  shows "gauss_term d (Fin r) = Fin (ln (2 * pi * d\<^sup>2) + r\<^sup>2 / d\<^sup>2)"
    and "ln (2 * pi * d\<^sup>2) + r\<^sup>2 / d\<^sup>2 \<le> 2 ^ 805"
proof -
  define D where "D = d * d"
  define R where "R = r * r"
  define U where "U = 2 * pi * D"
  define Q where "Q = R / D"
  note D = square_bounds [OF d, folded D_def]
  have c1: "(1 / 2 ^ 1074 :: real) \<le> 1 / 2 ^ 400" "(2 ^ 400 :: real) \<le> 2 ^ 1020"
    "(2 ^ 404 :: real) \<le> 2 ^ 1020" "(2 ^ 804 :: real) \<le> 2 ^ 1020"
    "(0::real) < 1 / 2 ^ 400" "(1075 :: real) \<le> 2 ^ 1020"
    by simp_all
  have Dpos: "0 < D" using D(1) c1(5) by linarith
  have "np_square (Fin d) = Fin D"
    unfolding np_square_def D_def
    by (rule np_mul_in_range) (use D c1 in \<open>simp_all add: D_def\<close>)
  moreover have "underflow (Fin D) = Fin D"
    by (rule underflow_id) (use D c1 Dpos in simp)
  ultimately have var: "variance d = Fin D"
    by (simp only: variance_def)
  have Rb: "R \<le> 2 ^ 404" "0 \<le> R"
  proof -
    show "0 \<le> R" by (simp add: R_def)
    have "\<bar>r\<bar>\<^sup>2 \<le> (2 ^ 202)\<^sup>2" using r by (intro power_mono) simp_all
    moreover have "((2::real) ^ 202)\<^sup>2 = 2 ^ 404" by (simp add: power_mult [symmetric])
    ultimately show "R \<le> 2 ^ 404" by (simp add: R_def power2_eq_square)
  qed
  have sqr: "np_square (Fin r) = Fin R"
    unfolding np_square_def R_def
    by (rule np_mul_in_range) (use Rb c1 in \<open>simp add: R_def\<close>)
  have pi: "1 \<le> 2 * pi" "2 * pi \<le> 8"
    using pi_ge_two pi_less_4 by simp_all
  have Ub: "1 / 2 ^ 400 \<le> U" "U \<le> 8 * 2 ^ 400"
  proof -
    have "D \<le> 2 * pi * D" using pi(1) Dpos by simp
    with D(1) show "1 / 2 ^ 400 \<le> U" unfolding U_def by linarith
    have "2 * pi * D \<le> 8 * 2 ^ 400"
      using pi D(2) Dpos by (intro mult_mono) simp_all
    then show "U \<le> 8 * 2 ^ 400" unfolding U_def .
  qed
  have Upos: "0 < U" using Ub(1) c1(5) by linarith
  have mu: "np_mul (Fin (2 * pi)) (Fin D) = Fin U"
    unfolding U_def
    by (rule np_mul_in_range) (use Ub Upos c1 in \<open>simp add: U_def\<close>)
  have lgU: "- 1075 \<le> ln U" "ln U \<le> 8 * 2 ^ 400"
  proof -
    have "min_round < U" using min_round_small(2) c1(1) Ub(1) by linarith
    then show "- 1075 \<le> ln U" by (rule ln_lower)
    from ln_le_minus_one [OF Upos] Ub(2) show "ln U \<le> 8 * 2 ^ 400" by linarith
  qed
  have Qb: "Q \<le> 2 ^ 804" "0 \<le> Q"
  proof -
    show "0 \<le> Q" using Rb(2) Dpos by (simp add: Q_def)
    have "R / D \<le> 2 ^ 404 / (1 / 2 ^ 400)"
      using Rb D(1) by (intro frac_le) simp_all
    moreover have "(2::real) ^ 404 / (1 / 2 ^ 400) = 2 ^ 804"
      by (simp add: power_add [symmetric])
    ultimately show "Q \<le> 2 ^ 804" by (simp add: Q_def)
  qed
  have dv: "np_div (Fin R) (Fin D) = Fin Q"
    unfolding Q_def
    by (rule np_div_in_range) (use Dpos Qb c1 in \<open>simp_all add: Q_def\<close>)
  have "\<bar>ln U + Q\<bar> \<le> 2 ^ 1023"
  proof -
    have "(8::real) * 2 ^ 400 + 2 ^ 804 \<le> 2 ^ 1023" by simp
    with lgU Qb c1(6) show ?thesis by (simp add: abs_le_iff)
  qed
  then have ad: "np_add (Fin (ln U)) (Fin Q) = Fin (ln U + Q)"
    by (rule np_add_in_range)
  have "gauss_term d (Fin r) = Fin (ln U + Q)"
    unfolding gauss_term_def var sqr mu dv using Upos ad by simp
  then show "gauss_term d (Fin r) = Fin (ln (2 * pi * d\<^sup>2) + r\<^sup>2 / d\<^sup>2)"
    by (simp add: U_def Q_def D_def R_def power2_eq_square)
  have "(8::real) * 2 ^ 400 + 2 ^ 804 \<le> 2 ^ 805" by simp
  with lgU(2) Qb(1) have "ln U + Q \<le> 2 ^ 805" by linarith
  then show "ln (2 * pi * d\<^sup>2) + r\<^sup>2 / d\<^sup>2 \<le> 2 ^ 805"
    by (simp add: U_def Q_def D_def R_def power2_eq_square)
qed

lemma log_likelihood_in_range:
  assumes th: "2 \<le> length theta" and len: "length y = length x" "length dy = length x"
    and n: "length x < 2 ^ 200"
    and sig: "\<forall>d \<in> set dy. 1 / 2 ^ 200 \<le> \<bar>d\<bar> \<and> \<bar>d\<bar> \<le> 2 ^ 200"
    and t0: "\<bar>theta ! 0\<bar> \<le> 2 ^ 200"
    and obs: "\<forall>i<length x. \<bar>theta ! 1 * x ! i\<bar> \<le> 2 ^ 200 \<and> \<bar>y ! i\<bar> \<le> 2 ^ 200"
  shows "log_likelihood theta x y dy =
    Inr (Fin (\<Sum>i<length x. - 0.5 * (ln (2 * pi * (dy ! i)\<^sup>2)
        + (y ! i - (theta ! 0 + theta ! 1 * x ! i))\<^sup>2 / (dy ! i)\<^sup>2)))"
proof -
  let ?n = "length x"
  let ?r = "\<lambda>i. y ! i - (theta ! 0 + theta ! 1 * x ! i)"
  let ?f = "\<lambda>i. ln (2 * pi * (dy ! i)\<^sup>2) + (?r i)\<^sup>2 / (dy ! i)\<^sup>2"
  have tm: "gauss_term (dy ! i) (residual (theta ! 0) (theta ! 1) (x ! i) (y ! i)) = Fin (?f i)"
    and bound: "?f i \<le> 2 ^ 805"
    if i: "i < ?n" for i
  proof -
    from obs i have o: "\<bar>theta ! 1 * x ! i\<bar> \<le> 2 ^ 200" "\<bar>y ! i\<bar> \<le> 2 ^ 200"
      by simp_all
    from i len have "dy ! i \<in> set dy" by simp
    with sig have d: "1 / 2 ^ 200 \<le> \<bar>dy ! i\<bar>" "\<bar>dy ! i\<bar> \<le> 2 ^ 200" by simp_all
    show "gauss_term (dy ! i) (residual (theta ! 0) (theta ! 1) (x ! i) (y ! i)) = Fin (?f i)"
      unfolding residual_in_range(1) [OF t0 o]
      by (rule gauss_term_in_range(1) [OF d residual_in_range(2) [OF t0 o]])
    show "?f i \<le> 2 ^ 805"
      by (rule gauss_term_in_range(2) [OF d residual_in_range(2) [OF t0 o]])
  qed
  have total: "(\<Sum>i<?n. ?f i) < max_round"
  proof -
    have "(\<Sum>i<?n. ?f i) \<le> (\<Sum>i<?n. 2 ^ 805)"
      by (rule sum_mono) (use bound in simp)
    also have "\<dots> = real ?n * 2 ^ 805" by simp
    also have "\<dots> \<le> 2 ^ 200 * 2 ^ 805"
    proof (rule mult_right_mono)
      from n have "real ?n < real (2 ^ 200)" by (simp only: of_nat_less_iff)
      then show "real ?n \<le> 2 ^ 200" by simp
    qed simp
    also have "\<dots> < 2 ^ 1023" by simp
    finally show ?thesis using max_round_large by simp
  qed
  have eq: "map (\<lambda>i. gauss_term (dy ! i) (residual (theta ! 0) (theta ! 1) (x ! i) (y ! i))) [0..<?n]
        = map Fin (map ?f [0..<?n])"
    using tm by simp
  have ss: "sum_list (map ?f [0..<?n]) = (\<Sum>i<?n. ?f i)"
    by (simp add: interv_sum_list_conv_sum_set_nat atLeast0LessThan)
  have "log_likelihood theta x y dy
        = Inr (fl_mul (Fin (- 0.5)) (overflow_up (np_sum (map Fin (map ?f [0..<?n])))))"
    unfolding log_likelihood_same [OF th len] eq ..
  also have "\<dots> = Inr (Fin (- 0.5 * (\<Sum>i<?n. ?f i)))"
    unfolding np_sum_Fin ss using total by simp
  finally show ?thesis
    unfolding sum_distrib_left .
qed


subsection \<open>The claims on the likelihood\<close>

text \<open>
  C8, as the code has it: a sigma that is strictly positive is not enough, because the
  squares, products and quotients of the summand are computed in doubles. For an
  observation set of fewer than \<open>2^200\<close> observations in which every sigma lies between
  \<open>2^-200\<close> and \<open>2^200\<close> and the intercept \<open>theta[0]\<close>, every product \<open>theta[1] x\<^sub>i\<close> and every
  \<open>y\<^sub>i\<close> are of magnitude at most \<open>2^200\<close>,
  \<open>log_likelihood\<close> is the sum over the observations of
  \<open>-0.5 * (log (2 pi sigma\<^sub>i\<^sup>2) + (y\<^sub>i - (theta[0] + theta[1] x\<^sub>i))\<^sup>2 / sigma\<^sub>i\<^sup>2)\<close>.
  For the empty observation set it is 0, so that the posterior is the prior, at a single
  point as well as on a whole grid.
\<close>

theorem log_likelihood_gaussian_sum_in_range:
  "2 \<le> length theta \<Longrightarrow> length y = length x \<Longrightarrow> length dy = length x \<Longrightarrow>
   length x < 2 ^ 200 \<Longrightarrow>
   \<forall>s \<in> set dy. 1 / 2 ^ 200 \<le> s \<and> s \<le> 2 ^ 200 \<Longrightarrow>
   \<bar>theta ! 0\<bar> \<le> 2 ^ 200 \<Longrightarrow>
   \<forall>i<length x. \<bar>theta ! 1 * x ! i\<bar> \<le> 2 ^ 200 \<and> \<bar>y ! i\<bar> \<le> 2 ^ 200 \<Longrightarrow>
   log_likelihood theta x y dy =
     Inr (Fin (\<Sum>i<length x. - 0.5 * (ln (2 * pi * (dy ! i)\<^sup>2)
                 + (y ! i - (theta ! 0 + theta ! 1 * x ! i))\<^sup>2 / (dy ! i)\<^sup>2)))
   \<and> log_likelihood theta [] [] [] = Inr (Fin 0)
   \<and> log_posterior theta [] [] [] = Inr (log_prior theta)
   \<and> log_P1 [] [] [] sr ir = Inr (map (\<lambda>b. map (\<lambda>m. log_flat_prior [b, m]) sr) ir)"
proof -
  assume th: "2 \<le> length theta" and len: "length y = length x" "length dy = length x"
    and n: "length x < 2 ^ 200"
    and pos: "\<forall>s \<in> set dy. 1 / 2 ^ 200 \<le> s \<and> s \<le> 2 ^ 200"
    and t0: "\<bar>theta ! 0\<bar> \<le> 2 ^ 200"
    and obs: "\<forall>i<length x. \<bar>theta ! 1 * x ! i\<bar> \<le> 2 ^ 200 \<and> \<bar>y ! i\<bar> \<le> 2 ^ 200"
  have sig: "\<forall>d \<in> set dy. 1 / 2 ^ 200 \<le> \<bar>d\<bar> \<and> \<bar>d\<bar> \<le> 2 ^ 200"
  proof
    fix d assume "d \<in> set dy"
    with pos have d: "1 / 2 ^ 200 \<le> d" "d \<le> 2 ^ 200" by simp_all
    have "(0::real) < 1 / 2 ^ 200" by simp
    with d(1) have "0 < d" by linarith
    with d show "1 / 2 ^ 200 \<le> \<bar>d\<bar> \<and> \<bar>d\<bar> \<le> 2 ^ 200" by simp
  qed
  note main = log_likelihood_in_range [OF th len n sig t0 obs]
  note empty = log_likelihood_empty
  have flat: "fl_add (Fin 0) (log_flat_prior t) = log_flat_prior t" for t
    by (simp add: log_flat_prior_def)
  have prior: "fl_add (log_prior t) (Fin 0) = log_prior t" for t
    by (simp add: log_prior_def)
  have post: "log_posterior theta [] [] [] = Inr (log_prior theta)"
    by (simp add: log_posterior_def empty [OF th] prior)
  have row: "sequence_err (map (\<lambda>m. ebind (log_likelihood [b, m] [] [] [])
                 (\<lambda>l. Inr (fl_add l (log_flat_prior [b, m])))) sr)
             = Inr (map (\<lambda>m. log_flat_prior [b, m]) sr)" for b
    by (simp add: empty flat sequence_err_Inr)
  have grid: "log_P1 [] [] [] sr ir = Inr (map (\<lambda>b. map (\<lambda>m. log_flat_prior [b, m]) sr) ir)"
    unfolding log_P1_def row by (rule sequence_err_Inr)
  from main empty [OF th] post grid show ?thesis by blast
qed

theorem log_likelihood_gaussian_sum_in_range_witness:
  "list_all (\<lambda>s. 1 / 2 ^ 200 \<le> s \<and> s \<le> 2 ^ 200) [1, 2 :: real]
   \<and> log_likelihood [1, 2] [0, 1] [3, 5] [1, 2]
       = Inr (Fin (- 0.5 * (ln (2 * pi) + 4) + - 0.5 * (ln (8 * pi) + 1)))"
proof -
  have all: "(\<forall>i<Suc (Suc 0). P i) \<longleftrightarrow> P 0 \<and> P (Suc 0)" for P
    by (auto simp: less_Suc_eq)
  show ?thesis
    using log_likelihood_gaussian_sum_in_range [of "[1, 2]" "[3, 5]" "[0, 1]" "[1, 2]"]
    by (simp add: all)
qed

text \<open>
  The claim C8 as written fails, each time with a strictly positive sigma and a finite
  claimed sum: with sigma \<open>2^-600\<close> the square of sigma rounds to zero and the result is
  \<open>nan\<close>; with sigma \<open>2^600\<close> the square of sigma overflows and the result is \<open>-inf\<close>; with
  \<open>y = 2^600\<close> and sigma \<open>2^300\<close> the square of the residual overflows and the result is
  \<open>-inf\<close>, where the claimed sum is about \<open>-2^599\<close>.
\<close>

theorem positive_sigma_out_of_range_counterexample:
  "log_likelihood [0, 0] [0] [3] [1 / 2 ^ 600] = Inr NaN
   \<and> log_likelihood [0, 0] [0] [3] [2 ^ 600] = Inr NegInf
   \<and> log_likelihood [0, 0] [0] [2 ^ 600] [2 ^ 300] = Inr NegInf"
proof -
  have a: "log_likelihood [0, 0] [0] [3] [1 / 2 ^ 600] = Inr NaN"
    by (rule log_likelihood_underflow) (simp_all add: min_round_def)
  have big: "max_round \<le> 2 ^ 600 * 2 ^ 600" "\<not> max_round \<le> 3" "\<not> max_round \<le> 0"
    "\<not> max_round \<le> 9" "\<not> max_round \<le> 2 ^ 600"
    "min_round < 2 ^ 300 * 2 ^ 300" "2 ^ 300 * 2 ^ 300 < max_round"
    by (simp_all add: max_round_def min_round_def)
  have r: "residual 0 0 0 3 = Fin 3"
    using big by (simp add: residual_def np_sub_def np_add_def np_mul_def fl_sub_def)
  have t: "gauss_term (2 ^ 600) (Fin 3) = PosInf"
    using big
    by (simp add: gauss_term_def variance_def np_square_def np_mul_def np_div_def np_add_def
        signed_inf_def)
  have b: "log_likelihood [0, 0] [0] [3] [2 ^ 600] = Inr NegInf"
  proof -
    have "log_likelihood [0, 0] [0] [3] [2 ^ 600]
          = Inr (fl_mul (Fin (- 0.5)) (overflow_up (np_sum [gauss_term (2 ^ 600) (residual 0 0 0 3)])))"
      using log_likelihood_same [of "[0, 0]" "[3]" "[0]" "[2 ^ 600]"] by simp
    then show ?thesis
      unfolding r t by (simp add: np_sum_def signed_inf_def)
  qed
  have r': "residual 0 0 0 (2 ^ 600) = Fin (2 ^ 600)"
    using big by (simp add: residual_def np_sub_def np_add_def np_mul_def fl_sub_def)
  have "np_square (Fin (2 ^ 600)) = PosInf"
    using big by (simp add: np_square_def np_mul_def)
  then have t': "gauss_term (2 ^ 300) (Fin (2 ^ 600)) = PosInf"
    by (rule gauss_term_residual_overflow [OF big(6,7)])
  have c: "log_likelihood [0, 0] [0] [2 ^ 600] [2 ^ 300] = Inr NegInf"
  proof -
    have "log_likelihood [0, 0] [0] [2 ^ 600] [2 ^ 300]
          = Inr (fl_mul (Fin (- 0.5))
               (overflow_up (np_sum [gauss_term (2 ^ 300) (residual 0 0 0 (2 ^ 600))])))"
      using log_likelihood_same [of "[0, 0]" "[2 ^ 600]" "[0]" "[2 ^ 300]"] by simp
    then show ?thesis
      unfolding r' t' by (simp add: np_sum_def signed_inf_def)
  qed
  from a b c show ?thesis by (intro conjI)
qed

text \<open>
  C5, as the code has it: an observation set containing a sigma that is zero or negative
  raises nothing. \<open>log_likelihood\<close> returns a float, the one it returns with every sigma
  replaced by its absolute value, because sigma enters only squared; with some sigma equal
  to zero that float is \<open>nan\<close>.
\<close>

theorem log_likelihood_nonpositive_sigma:
  "2 \<le> length theta \<Longrightarrow> length y = length x \<Longrightarrow> length dy = length x \<Longrightarrow>
   \<exists>s \<in> set dy. s \<le> 0 \<Longrightarrow>
   (\<exists>r. log_likelihood theta x y dy = Inr r)
   \<and> log_likelihood theta x y dy = log_likelihood theta x y (map abs dy)
   \<and> (0 \<in> set dy \<longrightarrow> log_likelihood theta x y dy = Inr NaN)"
proof -
  assume th: "2 \<le> length theta" and len: "length y = length x" "length dy = length x"
  have "\<exists>r. log_likelihood theta x y dy = Inr r"
    unfolding log_likelihood_same [OF th len] by blast
  moreover have "log_likelihood theta x y dy = log_likelihood theta x y (map abs dy)"
    by (rule log_likelihood_abs [symmetric])
  moreover have "log_likelihood theta x y dy = Inr NaN" if "0 \<in> set dy"
  proof (rule log_likelihood_underflow [OF th len])
    from that min_round_small(1) show "\<exists>d \<in> set dy. d * d \<le> min_round"
      by (intro bexI [of _ 0]) simp_all
  qed
  ultimately show ?thesis by blast
qed

theorem log_likelihood_nonpositive_sigma_witness:
  "(\<exists>s \<in> set [- 1, 0 :: real]. s \<le> 0)
   \<and> log_likelihood [1, 2] [0, 1] [3, 5] [- 1, 0] = log_likelihood [1, 2] [0, 1] [3, 5] [1, 0]
   \<and> log_likelihood [1, 2] [0, 1] [3, 5] [- 1, 0] = Inr NaN"
proof -
  have h: "\<exists>s \<in> set [- 1, 0 :: real]. s \<le> 0" by simp
  have "2 \<le> length [1, 2 :: real]" "length [3, 5 :: real] = length [0, 1 :: real]"
    "length [- 1, 0 :: real] = length [0, 1 :: real]"
    by simp_all
  from log_likelihood_nonpositive_sigma [OF this h]
  have a: "log_likelihood [1, 2] [0, 1] [3, 5] [- 1, 0]
           = log_likelihood [1, 2] [0, 1] [3, 5] (map abs [- 1, 0])"
    and b: "0 \<in> set [- 1, 0 :: real] \<longrightarrow> log_likelihood [1, 2] [0, 1] [3, 5] [- 1, 0] = Inr NaN"
    by blast+
  have "map abs [- 1, 0 :: real] = [1, 0]" by simp
  with a have a': "log_likelihood [1, 2] [0, 1] [3, 5] [- 1, 0]
           = log_likelihood [1, 2] [0, 1] [3, 5] [1, 0]"
    by (simp only:)
  from b have b': "log_likelihood [1, 2] [0, 1] [3, 5] [- 1, 0] = Inr NaN" by simp
  from h a' b' show ?thesis by (intro conjI)
qed

text \<open>
  The claim C5 as written fails: a negative sigma gives an ordinary finite value and a zero
  sigma gives \<open>nan\<close>, both returned without an exception.
\<close>

theorem negative_sigma_no_error_counterexample:
  "log_likelihood [0, 0] [0] [3] [- 1] = Inr (Fin (- 0.5 * (ln (2 * pi) + 9)))
   \<and> log_likelihood [0, 0] [0] [3] [0] = Inr NaN"
proof -
  have "log_likelihood [0, 0] [0] [3] [- 1] = Inr (Fin (- 0.5 * (ln (2 * pi) + 9)))"
    using log_likelihood_in_range [of "[0, 0]" "[3]" "[0]" "[- 1]"]
    by simp
  moreover have "log_likelihood [0, 0] [0] [3] [0] = Inr NaN"
    by (rule log_likelihood_underflow) (simp_all add: min_round_def)
  ultimately show ?thesis ..
qed


section \<open>Properties of the data generator\<close>

lemma draw_length: "length (fst (draw step n g)) = n"
proof (induction n arbitrary: g)
  case 0
  show ?case by simp
next
  case (Suc n)
  obtain v g1 where s: "step g = (v, g1)" by (cases "step g")
  obtain vs g2 where d: "draw step n g1 = (vs, g2)" by (cases "draw step n g1")
  from Suc [of g1] d have "length vs = n" by simp
  with s d show ?case by simp
qed

lemma make_data_length:
  assumes "0 \<le> N" "0 \<le> rseed" "rseed < 2 ^ 32"
  shows "\<exists>x y s. make_data G intercept slope N dy rseed = Inr (x, y, s)
           \<and> length x = nat N \<and> length y = nat N \<and> length s = nat N"
proof -
  obtain u g1 where u: "draw (next_uniform G) (nat N) (seed_state G rseed) = (u, g1)"
    by (cases "draw (next_uniform G) (nat N) (seed_state G rseed)")
  obtain z g2 where z: "draw (next_normal G) (nat N) g1 = (z, g2)"
    by (cases "draw (next_normal G) (nat N) g1")
  have lu: "length u = nat N" using draw_length [of "next_uniform G" "nat N" "seed_state G rseed"] u by simp
  have lz: "length z = nat N" using draw_length [of "next_normal G" "nat N" g1] z by simp
  show ?thesis
    using assms u z lu lz
    by (simp add: make_data_def RandomState_def rand_def randn_def broadcast_def)
qed

text \<open>
  C3 holds for \<open>make_data\<close> (lemma \<open>make_data_length\<close>) and fails for the scatter
  variant: with \<open>N = 5\<close>, and with \<open>N = 0\<close>, \<open>make_data_scatter\<close> returns three
  sequences of length 20, for every generator.
\<close>

theorem make_data_scatter_ignores_N:
  "(\<exists>x y s. make_data_scatter G 25 0.5 3 5 2 42 = Inr (x, y, s)
       \<and> length x = 20 \<and> length y = 20 \<and> length s = 20)
   \<and> (\<exists>x y s. make_data_scatter G 25 0.5 3 0 2 42 = Inr (x, y, s)
       \<and> length x = 20 \<and> length y = 20 \<and> length s = 20)"
proof -
  obtain u g1 where u: "draw (next_uniform G) 20 (seed_state G 42) = (u, g1)"
    by (cases "draw (next_uniform G) 20 (seed_state G 42)")
  obtain z g2 where z: "draw (next_normal G) 20 g1 = (z, g2)"
    by (cases "draw (next_normal G) 20 g1")
  have lu: "length u = 20" using draw_length [of "next_uniform G" 20 "seed_state G 42"] u by simp
  have lz: "length z = 20" using draw_length [of "next_normal G" 20 g1] z by simp
  show ?thesis
    using u z lu lz
    by (simp add: make_data_scatter_def RandomState_def rand_def randn_def broadcast_def)
qed



section \<open>Properties of the contour levels\<close>

lemma np_insort_Fin: "np_insort (Fin a) (map Fin ys) = map Fin (insort a ys)"
  by (induction ys) auto

lemma np_sort_Fin: "np_sort (map Fin xs) = map Fin (sort xs)"
  by (induction xs) (simp_all add: np_sort_def sort_key_def np_insort_Fin)

lemma sum_list_insort: "sum_list (insort a xs) = a + sum_list xs" for a :: real
  by (induction xs) simp_all

lemma sum_list_sort: "sum_list (sort xs) = sum_list xs" for xs :: "real list"
  by (induction xs) (simp_all add: sum_list_insort)

lemma cumsum_from_Fin:
  "cumsum_from (Fin a) (map Fin xs) = map (\<lambda>i. Fin (a + sum_list (take (Suc i) xs))) [0..<length xs]"
proof (induction xs arbitrary: a)
  case Nil
  show ?case by simp
next
  case (Cons x xs)
  have "[0..<length (x # xs)] = 0 # map Suc [0..<length xs]"
    by (simp add: upt_conv_Cons map_Suc_upt del: upt_Suc)
  then show ?case
    by (simp add: Cons add.assoc del: upt_Suc)
qed

lemma pct_Fin:
  assumes "sum_list s \<noteq> 0"
  shows "map (\<lambda>c. fl_div c (np_sum (map Fin s))) (np_cumsum (map Fin s))
         = map (\<lambda>i. Fin (cumulative_fraction s i)) [0..<length s]"
  using assms
  by (simp add: np_sum_Fin np_cumsum_def cumsum_from_Fin cumulative_fraction_def)

lemma bsearch_partitioned:
  assumes "hi \<le> length a" "lo \<le> hi"
    and "\<forall>i<lo. sort_less (a ! i) v"
    and "\<forall>i. hi \<le> i \<and> i < length a \<longrightarrow> \<not> sort_less (a ! i) v"
    and "\<forall>i j. i \<le> j \<and> j < length a \<and> sort_less (a ! j) v \<longrightarrow> sort_less (a ! i) v"
  shows "bsearch a v lo hi \<le> length a
       \<and> (\<forall>i < bsearch a v lo hi. sort_less (a ! i) v)
       \<and> (\<forall>i. bsearch a v lo hi \<le> i \<and> i < length a \<longrightarrow> \<not> sort_less (a ! i) v)"
  using assms
proof (induction a v lo hi rule: bsearch.induct)
  case (1 a v lo hi)
  show ?case
  proof (cases "lo < hi")
    case False
    with "1.prems" have "lo = hi" by simp
    with False "1.prems" show ?thesis
      by (subst (1 2 3) bsearch.simps) simp
  next
    case True
    define mid where "mid = lo + (hi - lo) div 2"
    have mid: "lo \<le> mid" "mid < hi" using True by (simp_all add: mid_def)
    show ?thesis
    proof (cases "sort_less (a ! mid) v")
      case less: True
      have eq: "bsearch a v lo hi = bsearch a v (mid + 1) hi"
        by (subst bsearch.simps) (simp add: True less mid_def [symmetric] Let_def)
      have below: "\<forall>i<mid + 1. sort_less (a ! i) v"
        using "1.prems"(1,5) mid less by (metis Suc_eq_plus1 less_Suc_eq_le less_le_trans)
      show ?thesis
        unfolding eq
        using "1.IH"(1) [OF True mid_def less _ _ below] "1.prems" mid by simp
    next
      case False
      have eq: "bsearch a v lo hi = bsearch a v lo mid"
        by (subst bsearch.simps) (simp add: True False mid_def [symmetric] Let_def)
      have above: "\<forall>i. mid \<le> i \<and> i < length a \<longrightarrow> \<not> sort_less (a ! i) v"
        using "1.prems"(5) False by blast
      show ?thesis
        unfolding eq
        using "1.IH"(2) [OF True mid_def False _ _ _ above] "1.prems" mid by simp
    qed
  qed
qed

lemma positive_element:
  fixes xs :: "real list"
  assumes "0 < sum_list xs"
  shows "\<exists>v \<in> set xs. 0 < v"
proof (rule ccontr)
  assume "\<not> (\<exists>v \<in> set xs. 0 < v)"
  then have "\<And>v. v \<in> set xs \<Longrightarrow> v \<le> 0" by force
  then have "sum_list xs \<le> 0" by (rule sum_list_nonpos)
  with assms show False by simp
qed

lemma fraction_partition:
  fixes s :: "real list"
  assumes desc: "sorted (rev s)" and pos: "0 < sum_list s" and t: "t \<le> 1"
    and ij: "i \<le> j" and j: "j < length s" and lt: "cumulative_fraction s j < t"
  shows "cumulative_fraction s i < t"
proof -
  have "sum_list (take (Suc j) s) / sum_list s < 1"
    using lt t by (simp add: cumulative_fraction_def)
  then have "sum_list (take (Suc j) s) < sum_list s"
    using pos by simp
  moreover have "sum_list s = sum_list (take (Suc j) s) + sum_list (drop (Suc j) s)"
    by (metis append_take_drop_id sum_list_append)
  ultimately have "0 < sum_list (drop (Suc j) s)" by simp
  then obtain v where v: "v \<in> set (drop (Suc j) s)" "0 < v"
    using positive_element by blast
  then obtain q where q: "q < length (drop (Suc j) s)" "v = drop (Suc j) s ! q"
    by (metis in_set_conv_nth)
  then have k: "Suc j + q < length s" "v = s ! (Suc j + q)"
    by simp_all
  have head_pos: "0 \<le> s ! m" if "m \<le> j" for m
  proof -
    have "s ! (Suc j + q) \<le> s ! m"
      using sorted_rev_nth_mono [OF desc, of m "Suc j + q"] that k(1) by simp
    with v(2) k(2) show ?thesis by simp
  qed
  have split: "take (Suc j) s = take (Suc i) s @ take (j - i) (drop (Suc i) s)"
    using ij take_add [of "Suc i" "j - i" s] by simp
  have "0 \<le> sum_list (take (j - i) (drop (Suc i) s))"
  proof (rule sum_list_nonneg)
    fix w assume "w \<in> set (take (j - i) (drop (Suc i) s))"
    then obtain p where p: "p < length (take (j - i) (drop (Suc i) s))"
      "w = take (j - i) (drop (Suc i) s) ! p"
      by (metis in_set_conv_nth)
    then have pj: "p < j - i" and pn: "Suc i + p < length s" by auto
    from pn have "Suc i \<le> length s" by simp
    then have "w = s ! (Suc i + p)" using p(2) pj by (simp add: nth_drop)
    then show "0 \<le> w" using head_pos [of "Suc i + p"] pj by simp
  qed
  then have "sum_list (take (Suc i) s) \<le> sum_list (take (Suc j) s)"
    unfolding split by simp
  then have "cumulative_fraction s i \<le> cumulative_fraction s j"
    using pos by (simp add: cumulative_fraction_def divide_right_mono)
  with lt show ?thesis by simp
qed

lemma cutoff_exists:
  assumes desc: "sorted (rev s)" and pos: "0 < sum_list s" and t: "t \<le> 1"
  shows "\<exists>r<length s.
           searchsorted (map (\<lambda>c. fl_div c (np_sum (map Fin s))) (np_cumsum (map Fin s))) (Fin t) = r
         \<and> find (\<lambda>i. t \<le> cumulative_fraction s i) [0..<length s] = Some r
         \<and> (\<forall>i<r. cumulative_fraction s i < t) \<and> t \<le> cumulative_fraction s r"
proof -
  let ?n = "length s"
  let ?pct = "map (\<lambda>i. Fin (cumulative_fraction s i)) [0..<?n]"
  let ?r = "bsearch ?pct (Fin t) 0 ?n"
  have pct: "map (\<lambda>c. fl_div c (np_sum (map Fin s))) (np_cumsum (map Fin s)) = ?pct"
    using pos by (simp add: pct_Fin)
  have part: "cumulative_fraction s i < t"
    if "i \<le> j" "j < ?n" "cumulative_fraction s j < t" for i j
    using fraction_partition [OF desc pos t that] .
  have n: "0 < ?n" using pos by (cases s) simp_all
  have last: "cumulative_fraction s (?n - 1) = 1"
    using pos n by (simp add: cumulative_fraction_def)
  have bs: "?r \<le> length ?pct
       \<and> (\<forall>i < ?r. sort_less (?pct ! i) (Fin t))
       \<and> (\<forall>i. ?r \<le> i \<and> i < length ?pct \<longrightarrow> \<not> sort_less (?pct ! i) (Fin t))"
  proof (rule bsearch_partitioned)
    show "\<forall>i j. i \<le> j \<and> j < length ?pct \<and> sort_less (?pct ! j) (Fin t) \<longrightarrow> sort_less (?pct ! i) (Fin t)"
      using part by (force simp del: upt_Suc)
  qed simp_all
  have below: "\<forall>i < ?r. cumulative_fraction s i < t"
  proof (intro allI impI)
    fix i assume i: "i < ?r"
    with bs have "i < ?n" by simp
    with bs i show "cumulative_fraction s i < t" by (auto simp del: upt_Suc)
  qed
  have lt: "?r < ?n"
  proof (rule ccontr)
    assume "\<not> ?r < ?n"
    with bs have "?r = ?n" by simp
    with below n have "cumulative_fraction s (?n - 1) < t" by simp
    with last t show False by simp
  qed
  with bs have at: "t \<le> cumulative_fraction s ?r"
    by (auto simp del: upt_Suc)
  have "find (\<lambda>i. t \<le> cumulative_fraction s i) [0..<?n] = Some ?r"
    unfolding find_Some_iff
    using lt at below by (intro exI [of _ ?r]) (auto simp del: upt_Suc)
  with lt at below show ?thesis
    unfolding pct searchsorted_def by (auto simp del: upt_Suc)
qed


lemma cutoff_mono:
  assumes "\<forall>i<r. cumulative_fraction s i < t" and "t' \<le> cumulative_fraction s r'" and "t \<le> t'"
  shows "r \<le> r'"
proof (rule ccontr)
  assume "\<not> r \<le> r'"
  then have "cumulative_fraction s r' < t" using assms(1) by simp
  with assms(2,3) show False by simp
qed

lemma targets_order:
  "(8329857870784471 / 2 ^ 54 :: real) \<le> 8128997327403745 / 2 ^ 53"
  "(8128997327403745 / 2 ^ 53 :: real) \<le> 8953237124005839 / 2 ^ 53"
  "(8953237124005839 / 2 ^ 53 :: real) \<le> 1"
  by simp_all

lemma contour_levels_cutoffs:
  assumes pos: "0 < sum_list (concat g)"
  shows "\<exists>r1 r2 r3. r1 \<le> r2 \<and> r2 \<le> r3 \<and> r3 < length (concat g)
     \<and> level_for (rev (sort (concat g))) (8329857870784471 / 2 ^ 54)
         = Some (rev (sort (concat g)) ! r1)
     \<and> level_for (rev (sort (concat g))) (8128997327403745 / 2 ^ 53)
         = Some (rev (sort (concat g)) ! r2)
     \<and> level_for (rev (sort (concat g))) (8953237124005839 / 2 ^ 53)
         = Some (rev (sort (concat g)) ! r3)
     \<and> contour_levels (map (map Fin) g)
         = Inr [Fin (rev (sort (concat g)) ! r1), Fin (rev (sort (concat g)) ! r2),
                Fin (rev (sort (concat g)) ! r3)]"
proof -
  define s where "s = rev (sort (concat g))"
  define t1 :: real where "t1 = 8329857870784471 / 2 ^ 54"
  define t2 :: real where "t2 = 8128997327403745 / 2 ^ 53"
  define t3 :: real where "t3 = 8953237124005839 / 2 ^ 53"
  let ?pct = "map (\<lambda>c. fl_div c (np_sum (map Fin s))) (np_cumsum (map Fin s))"
  have nn': "sorted (rev s)" by (simp add: s_def)
  have pos': "0 < sum_list s" using pos by (simp add: s_def sum_list_rev sum_list_sort)
  have len: "length s = length (concat g)" by (simp add: s_def)
  have srt: "rev (np_sort (concat (map (map Fin) g))) = map Fin s"
    by (simp add: s_def map_concat [symmetric] np_sort_Fin rev_map)
  have t12: "t1 \<le> t2" and t23: "t2 \<le> t3" and t3: "t3 \<le> 1"
    unfolding t1_def t2_def t3_def by (rule targets_order)+
  from t12 t23 t3 have t1: "t1 \<le> 1" and t2: "t2 \<le> 1" by simp_all
  from cutoff_exists [OF nn' pos' t1] obtain r1 where r1: "r1 < length s"
    "searchsorted ?pct (Fin t1) = r1"
    "find (\<lambda>i. t1 \<le> cumulative_fraction s i) [0..<length s] = Some r1"
    "\<forall>i<r1. cumulative_fraction s i < t1" "t1 \<le> cumulative_fraction s r1"
    by blast
  from cutoff_exists [OF nn' pos' t2] obtain r2 where r2: "r2 < length s"
    "searchsorted ?pct (Fin t2) = r2"
    "find (\<lambda>i. t2 \<le> cumulative_fraction s i) [0..<length s] = Some r2"
    "\<forall>i<r2. cumulative_fraction s i < t2" "t2 \<le> cumulative_fraction s r2"
    by blast
  from cutoff_exists [OF nn' pos' t3] obtain r3 where r3: "r3 < length s"
    "searchsorted ?pct (Fin t3) = r3"
    "find (\<lambda>i. t3 \<le> cumulative_fraction s i) [0..<length s] = Some r3"
    "\<forall>i<r3. cumulative_fraction s i < t3" "t3 \<le> cumulative_fraction s r3"
    by blast
  have le12: "r1 \<le> r2" using cutoff_mono [OF r1(4) r2(5) t12] .
  have le23: "r2 \<le> r3" using cutoff_mono [OF r2(4) r3(5) t23] .
  have lv: "level_for s t1 = Some (s ! r1)" "level_for s t2 = Some (s ! r2)"
    "level_for s t3 = Some (s ! r3)"
    unfolding level_for_def r1(3) r2(3) r3(3) by simp_all
  have tg: "targets = [t1, t2, t3]"
    unfolding targets_def t1_def t2_def t3_def ..
  have cl: "contour_levels (map (map Fin) g) = Inr [Fin (s ! r1), Fin (s ! r2), Fin (s ! r3)]"
    unfolding contour_levels_def Let_def srt tg
    using r1(1,2) r2(1,2) r3(1,2) by (simp add: index_def)
  from le12 le23 r3(1) lv cl show ?thesis
    unfolding s_def [symmetric] len [symmetric] t1_def t2_def t3_def by blast
qed

lemma contour_levels_first_position:
  assumes pos: "0 < sum_list (concat g)"
  shows "contour_levels (map (map Fin) g)
         = Inr (map (\<lambda>t. Fin (the (level_for (rev (sort (concat g))) t))) targets)"
proof -
  from contour_levels_cutoffs [OF pos] obtain r1 r2 r3 where
    "level_for (rev (sort (concat g))) (8329857870784471 / 2 ^ 54)
         = Some (rev (sort (concat g)) ! r1)"
    "level_for (rev (sort (concat g))) (8128997327403745 / 2 ^ 53)
         = Some (rev (sort (concat g)) ! r2)"
    "level_for (rev (sort (concat g))) (8953237124005839 / 2 ^ 53)
         = Some (rev (sort (concat g)) ! r3)"
    "contour_levels (map (map Fin) g)
         = Inr [Fin (rev (sort (concat g)) ! r1), Fin (rev (sort (concat g)) ! r2),
                Fin (rev (sort (concat g)) ! r3)]"
    by blast
  then show ?thesis
    unfolding targets_def by (simp only: list.map option.sel)
qed

lemma level_for_clear:
  assumes clear: "\<forall>i<length s. 1 / 2 ^ 20 \<le> \<bar>cumulative_fraction s i - t\<bar>"
    and near: "\<bar>t' - t\<bar> < 1 / 2 ^ 20"
  shows "level_for s t' = level_for s t"
proof -
  have "(t' \<le> cumulative_fraction s i) = (t \<le> cumulative_fraction s i)"
    if "i \<in> set [0..<length s]" for i
  proof -
    from that clear have "1 / 2 ^ 20 \<le> \<bar>cumulative_fraction s i - t\<bar>" by simp
    with near show ?thesis by linarith
  qed
  then have "find (\<lambda>i. t' \<le> cumulative_fraction s i) [0..<length s]
           = find (\<lambda>i. t \<le> cumulative_fraction s i) [0..<length s]"
    by (intro find_cong refl)
  then show ?thesis by (simp only: level_for_def)
qed

lemma targets_near:
  "\<bar>8329857870784471 / 2 ^ 54 - (0.68::real)\<^sup>2\<bar> < 1 / 2 ^ 20"
  "\<bar>8128997327403745 / 2 ^ 53 - (0.95::real)\<^sup>2\<bar> < 1 / 2 ^ 20"
  "\<bar>8953237124005839 / 2 ^ 53 - (0.997::real)\<^sup>2\<bar> < 1 / 2 ^ 20"
  by (simp_all add: power2_eq_square)

text \<open>
  C1, as the code has it: \<open>contour_levels\<close> compares the cumulative fractions with the
  doubles \<open>0.68 ** 2\<close>, \<open>0.95 ** 2\<close> and \<open>0.997 ** 2\<close>, which are not the real numbers
  \<open>0.68\<^sup>2\<close>, \<open>0.95\<^sup>2\<close> and \<open>0.997\<^sup>2\<close>. On every grid of non-negative values with positive
  total (fewer than \<open>2^30\<close> values, total at most \<open>2^1000\<close>) that is clear of the targets, no
  cumulative fraction lying within \<open>2^-20\<close> of a target, \<open>contour_levels\<close> returns what the
  algorithm of the specification returns: the grid flattened and sorted in descending
  order, the running sums divided by the total, and for each target the value at the first
  position whose cumulative fraction is at least the target. The binary search of the code
  and the first position of the specification agree, and no index is out of range.
\<close>

theorem contour_levels_algorithm_clear:
  "\<forall>v \<in> set (concat g). 0 \<le> v \<Longrightarrow> 0 < sum_list (concat g) \<Longrightarrow>
   sum_list (concat g) \<le> 2 ^ 1000 \<Longrightarrow> length (concat g) < 2 ^ 30 \<Longrightarrow>
   clear_of_targets g \<Longrightarrow>
   \<exists>lv. spec_contour_levels g = Some lv \<and> contour_levels (map (map Fin) g) = Inr (map Fin lv)"
proof -
  assume pos: "0 < sum_list (concat g)" and clear: "clear_of_targets g"
  let ?s = "rev (sort (concat g))"
  from clear have c: "\<forall>i<length ?s. 1 / 2 ^ 20 \<le> \<bar>cumulative_fraction ?s i - t\<bar>"
    if "t \<in> set spec_targets" for t
    using that unfolding clear_of_targets_def Let_def list_all_iff by simp
  have st: "0.68\<^sup>2 \<in> set spec_targets" "0.95\<^sup>2 \<in> set spec_targets" "0.997\<^sup>2 \<in> set spec_targets"
    by (simp_all add: spec_targets_def)
  note eq = level_for_clear [OF c [OF st(1)] targets_near(1)]
    level_for_clear [OF c [OF st(2)] targets_near(2)]
    level_for_clear [OF c [OF st(3)] targets_near(3)]
  from contour_levels_cutoffs [OF pos] obtain r1 r2 r3 where
    lv: "level_for ?s (0.68\<^sup>2) = Some (?s ! r1)"
        "level_for ?s (0.95\<^sup>2) = Some (?s ! r2)"
        "level_for ?s (0.997\<^sup>2) = Some (?s ! r3)"
    and cl: "contour_levels (map (map Fin) g) = Inr [Fin (?s ! r1), Fin (?s ! r2), Fin (?s ! r3)]"
    unfolding eq by blast
  have "spec_contour_levels g = Some [?s ! r1, ?s ! r2, ?s ! r3]"
    unfolding spec_contour_levels_def Let_def spec_targets_def using lv by simp
  with cl show ?thesis by simp
qed

theorem contour_levels_algorithm_clear_witness:
  "list_all (\<lambda>v. 0 \<le> v) (concat [[1, 3], [6, 0 :: real]])
   \<and> 0 < sum_list (concat [[1, 3], [6, 0 :: real]])
   \<and> clear_of_targets [[1, 3], [6, 0]]
   \<and> spec_contour_levels [[1, 3], [6, 0]] = Some [6, 1, 1]
   \<and> contour_levels [[Fin 1, Fin 3], [Fin 6, Fin 0]] = Inr [Fin 6, Fin 1, Fin 1]"
proof -
  have nn: "\<forall>v \<in> set (concat [[1, 3], [6, 0 :: real]]). 0 \<le> v" by simp
  have pos: "0 < sum_list (concat [[1, 3], [6, 0 :: real]])" by simp
  have tot: "sum_list (concat [[1, 3], [6, 0 :: real]]) \<le> 2 ^ 1000" by simp
  have len: "length (concat [[1, 3], [6, 0 :: real]]) < 2 ^ 30" by simp
  have clear: "clear_of_targets [[1, 3], [6, 0]]"
    by (simp add: clear_of_targets_def spec_targets_def cumulative_fraction_def
        power2_eq_square upt_rec)
  have spec: "spec_contour_levels [[1, 3], [6, 0]] = Some [6, 1, 1]"
    by (simp add: spec_contour_levels_def level_for_def cumulative_fraction_def spec_targets_def
        power2_eq_square upt_rec)
  from contour_levels_algorithm_clear [OF nn pos tot len clear] spec nn pos clear
  show ?thesis by simp
qed

text \<open>
  The claim C1 as written fails: in the grid \<open>[[4624, 4000], [1376, 0]]\<close> the greatest value
  holds the fraction \<open>0.4624\<close> of the total, which meets the target \<open>0.68\<^sup>2\<close>, so the
  algorithm of the specification returns \<open>4624\<close> as first threshold. The code compares
  with the double \<open>0.68 ** 2\<close>, which is greater, and returns \<open>4000\<close>.
\<close>

theorem double_target_counterexample:
  "contour_levels [[Fin 4624, Fin 4000], [Fin 1376, Fin 0]] = Inr [Fin 4000, Fin 1376, Fin 1376]
   \<and> spec_contour_levels [[4624, 4000], [1376, 0]] = Some [4624, 1376, 1376]"
proof -
  have pos: "0 < sum_list (concat [[4624, 4000], [1376, 0 :: real]])" by simp
  have spec: "spec_contour_levels [[4624, 4000], [1376, 0]] = Some [4624, 1376, 1376]"
    by (simp add: spec_contour_levels_def level_for_def cumulative_fraction_def spec_targets_def
        power2_eq_square upt_rec)
  have "contour_levels (map (map Fin) [[4624, 4000], [1376, 0]])
        = Inr [Fin 4000, Fin 1376, Fin 1376]"
    unfolding contour_levels_first_position [OF pos]
    by (simp add: level_for_def cumulative_fraction_def targets_def upt_rec)
  with spec show ?thesis by simp
qed




section \<open>Properties of the grid evaluation\<close>

lemma sort_less_trans_le:
  "\<not> sort_less c b \<Longrightarrow> \<not> sort_less b a \<Longrightarrow> \<not> sort_less c a"
  by (cases a; cases b; cases c) simp_all

lemma fl_max_cases: "a \<noteq> NaN \<Longrightarrow> b \<noteq> NaN \<Longrightarrow>
  (fl_max a b = a \<or> fl_max a b = b) \<and> \<not> sort_less (fl_max a b) a \<and> \<not> sort_less (fl_max a b) b"
  by (cases a; cases b) (simp_all add: fl_max_def)

lemma foldl_fl_max_greatest:
  assumes "NaN \<notin> set (a # xs)"
  shows "foldl fl_max a xs \<in> set (a # xs)
       \<and> (\<forall>e \<in> set (a # xs). \<not> sort_less (foldl fl_max a xs) e)"
  using assms
proof (induction xs arbitrary: a)
  case Nil
  then show ?case by (cases a) simp_all
next
  case (Cons x xs)
  from Cons.prems have ax: "a \<noteq> NaN" "x \<noteq> NaN" and rest: "NaN \<notin> set xs" by auto
  note mc = fl_max_cases [OF ax]
  from mc ax rest have "NaN \<notin> set (fl_max a x # xs)" by auto
  from Cons.IH [OF this]
  have ih: "foldl fl_max (fl_max a x) xs \<in> set (fl_max a x # xs)"
    "\<forall>e \<in> set (fl_max a x # xs). \<not> sort_less (foldl fl_max (fl_max a x) xs) e"
    by simp_all
  from ih(2) have top: "\<not> sort_less (foldl fl_max (fl_max a x) xs) (fl_max a x)" by simp
  have "\<not> sort_less (foldl fl_max (fl_max a x) xs) a" "\<not> sort_less (foldl fl_max (fl_max a x) xs) x"
    using sort_less_trans_le [OF top] mc by blast+
  with ih mc show ?case by auto
qed

lemma foldl_fl_max_NaN: "foldl fl_max NaN xs = NaN"
  by (induction xs) (simp_all add: fl_max_def)

lemma foldl_fl_max_has_NaN: "NaN \<in> set (a # xs) \<Longrightarrow> foldl fl_max a xs = NaN"
  by (induction xs arbitrary: a) (auto simp: fl_max_def foldl_fl_max_NaN)

lemma np_max_has_NaN:
  assumes "NaN \<in> set xs"
  shows "np_max xs = Inr NaN"
proof (cases xs)
  case Nil
  with assms show ?thesis by simp
next
  case (Cons a r)
  with assms foldl_fl_max_has_NaN [of a r] show ?thesis
    by (simp add: np_max_def)
qed

lemma np_max_greatest:
  assumes "xs \<noteq> []" "NaN \<notin> set xs"
  shows "\<exists>m \<in> set xs. np_max xs = Inr m \<and> (\<forall>e \<in> set xs. \<not> sort_less m e)"
proof -
  from assms(1) obtain a r where xs: "xs = a # r" by (cases xs) auto
  from foldl_fl_max_greatest [of a r] assms(2) show ?thesis
    unfolding xs np_max_def by simp
qed


subsection \<open>Normalisation\<close>

lemma normalized_value:
  "np_max (concat g) = Inr mx \<Longrightarrow> normalized g = Inr (map (map (\<lambda>v. np_exp (fl_sub v mx))) g)"
  by (simp add: normalized_def)

lemma concat_map_map: "concat (map (map f) g) = map f (concat g)"
  by (simp add: map_concat)

lemma normalized_unit_max:
  assumes fin: "\<forall>e \<in> set (concat g). e \<noteq> NaN \<and> e \<noteq> PosInf"
    and some: "\<exists>v. Fin v \<in> set (concat g)"
  shows "\<exists>P. normalized g = Inr (map (map Fin) P)
           \<and> (\<forall>v \<in> set (concat P). 0 \<le> v \<and> v \<le> 1) \<and> 1 \<in> set (concat P)
           \<and> np_max (concat (map (map Fin) P)) = Inr (Fin 1)"
proof -
  from some obtain v0 where v0: "Fin v0 \<in> set (concat g)" by blast
  then have ne: "concat g \<noteq> []" by (metis empty_iff empty_set)
  from fin have nonan: "NaN \<notin> set (concat g)" by blast
  from np_max_greatest [OF ne nonan] obtain m where
    m: "m \<in> set (concat g)" "np_max (concat g) = Inr m" "\<forall>e \<in> set (concat g). \<not> sort_less m e"
    by blast
  from m(3) v0 have top: "\<not> sort_less m (Fin v0)" by blast
  from m(1) fin have special: "m \<noteq> NaN" "m \<noteq> PosInf" by blast+
  have "\<exists>M. m = Fin M"
    using top special by (cases m) simp_all
  then obtain M where M: "m = Fin M" ..
  define h where "h = (\<lambda>e. case e of Fin v \<Rightarrow> exp (v - M) | _ \<Rightarrow> 0)"
  define P where "P = map (map h) g"
  have cell: "np_exp (fl_sub e (Fin M)) = Fin (h e)" if "e \<in> set (concat g)" for e
    using fin that by (cases e) (auto simp: fl_sub_def h_def)
  have "map (map (\<lambda>v. np_exp (fl_sub v (Fin M)))) g = map (map (\<lambda>e. Fin (h e))) g"
    using cell by (auto intro!: map_cong)
  then have norm: "normalized g = Inr (map (map Fin) P)"
    using normalized_value [OF m(2)] by (simp add: M P_def comp_def)
  have cP: "concat P = map h (concat g)"
    by (simp add: P_def concat_map_map)
  have range: "0 \<le> h e \<and> h e \<le> 1" if "e \<in> set (concat g)" for e
  proof (cases e)
    case (Fin v)
    with m(3) that M have "v \<le> M" by force
    with Fin show ?thesis by (simp add: h_def)
  qed (simp_all add: h_def)
  have one: "1 \<in> set (concat P)"
    using m(1) unfolding cP M by (force simp: h_def)
  have bounds: "\<forall>v \<in> set (concat P). 0 \<le> v \<and> v \<le> 1"
    unfolding cP using range by auto
  let ?Q = "concat (map (map Fin) P)"
  have Q: "?Q = map Fin (concat P)" by (rule concat_map_map)
  from one have "concat P \<noteq> []" by (metis empty_iff empty_set)
  then have Qne: "?Q \<noteq> []" unfolding Q by simp
  have QnoNaN: "NaN \<notin> set ?Q" unfolding Q by auto
  from np_max_greatest [OF Qne QnoNaN] obtain q where
    q: "q \<in> set ?Q" "np_max ?Q = Inr q" "\<forall>e \<in> set ?Q. \<not> sort_less q e"
    by blast
  from q(1) obtain w where w: "q = Fin w" "w \<in> set (concat P)" unfolding Q by auto
  from one have "Fin 1 \<in> set ?Q" unfolding Q by simp
  with q(3) w(1) have "\<not> w < 1" by force
  with bounds w(2) have "w = 1" by force
  with q(2) w(1) have "np_max ?Q = Inr (Fin 1)" by simp
  with norm bounds one show ?thesis by blast
qed

lemma normalized_all_NegInf:
  assumes ne: "concat g \<noteq> []" and all: "\<forall>e \<in> set (concat g). e = NegInf"
  shows "normalized g = Inr (map (map (\<lambda>_. NaN)) g)"
proof -
  have nonan: "NaN \<notin> set (concat g)" using all by auto
  from np_max_greatest [OF ne nonan] all have mx: "np_max (concat g) = Inr NegInf"
    by auto
  have cell: "np_exp (fl_sub e NegInf) = NaN" if "e \<in> set (concat g)" for e
  proof -
    from all that have "e = NegInf" by blast
    then show ?thesis by (simp add: fl_sub_def)
  qed
  have "map (map (\<lambda>v. np_exp (fl_sub v NegInf))) g = map (map (\<lambda>_. NaN)) g"
    using cell by (auto intro!: map_cong)
  with normalized_value [OF mx] show ?thesis by simp
qed

lemma normalized_has_NaN:
  assumes "NaN \<in> set (concat g)"
  shows "normalized g = Inr (map (map (\<lambda>_. NaN)) g)"
proof -
  have "fl_sub v NaN = NaN" for v by (simp add: fl_sub_def)
  with normalized_value [OF np_max_has_NaN [OF assms]] show ?thesis by simp
qed


subsection \<open>Contour levels of a grid of nan\<close>

lemma np_insort_NaN: "np_insort NaN (replicate n NaN) = replicate (Suc n) NaN"
  by (cases n) simp_all

lemma np_sort_NaN: "np_sort (replicate n NaN) = replicate n NaN"
  by (induction n) (simp_all add: np_sort_def np_insort_NaN)

lemma cumsum_from_NaN: "cumsum_from a (replicate n NaN) = replicate n NaN"
  by (induction n arbitrary: a) simp_all

lemma searchsorted_NaN: "searchsorted (replicate n NaN) v = 0"
proof -
  let ?a = "replicate n NaN"
  have "bsearch ?a v 0 (length ?a) \<le> length ?a
       \<and> (\<forall>i < bsearch ?a v 0 (length ?a). sort_less (?a ! i) v)
       \<and> (\<forall>i. bsearch ?a v 0 (length ?a) \<le> i \<and> i < length ?a \<longrightarrow> \<not> sort_less (?a ! i) v)"
    by (rule bsearch_partitioned) simp_all
  then have key: "bsearch ?a v 0 n \<le> n \<and> (\<forall>i < bsearch ?a v 0 n. sort_less (?a ! i) v)"
    unfolding length_replicate by blast
  have "bsearch ?a v 0 n = 0"
  proof (rule ccontr)
    assume "bsearch ?a v 0 n \<noteq> 0"
    then have pos: "0 < bsearch ?a v 0 n" by simp
    with key have "sort_less (?a ! 0) v" by blast
    moreover from pos key have "0 < n" by linarith
    then have "?a ! 0 = NaN" by simp
    ultimately show False by simp
  qed
  then show ?thesis by (simp add: searchsorted_def)
qed

lemma contour_levels_all_NaN:
  assumes ne: "concat g \<noteq> []" and all: "\<forall>e \<in> set (concat g). e = NaN"
  shows "contour_levels g = Inr [NaN, NaN, NaN]"
proof -
  define n where "n = length (concat g)"
  have n: "0 < n" using ne by (simp add: n_def)
  have flat: "concat g = replicate n NaN"
    unfolding n_def using all by (simp add: replicate_length_same)
  have total: "np_sum (replicate n NaN) = NaN"
    using n by (simp add: np_sum_has_NaN)
  have pct: "map (\<lambda>c. fl_div c NaN) (np_cumsum (replicate n NaN)) = replicate n NaN"
    by (simp add: np_cumsum_def cumsum_from_NaN)
  show ?thesis
    unfolding contour_levels_def Let_def flat np_sort_NaN rev_replicate total pct targets_def
    using n by (simp add: searchsorted_NaN index_def)
qed

subsection \<open>The likelihood under broadcasting\<close>

lemma fl_add_not_NegInf: "a \<noteq> NegInf \<Longrightarrow> b \<noteq> NegInf \<Longrightarrow> fl_add a b \<noteq> NegInf"
  by (cases a; cases b) simp_all

lemma fl_add_not_NaN:
  "a \<noteq> NaN \<Longrightarrow> b \<noteq> NaN \<Longrightarrow> a \<noteq> NegInf \<Longrightarrow> b \<noteq> NegInf \<Longrightarrow> fl_add a b \<noteq> NaN"
  by (cases a; cases b) simp_all

lemma fl_add_top_left:
  "a = NaN \<or> a = PosInf \<Longrightarrow> b \<noteq> NegInf \<Longrightarrow> fl_add a b = NaN \<or> fl_add a b = PosInf"
  by (cases a; cases b) simp_all

lemma fl_add_top_right:
  "b = NaN \<or> b = PosInf \<Longrightarrow> a \<noteq> NegInf \<Longrightarrow> fl_add a b = NaN \<or> fl_add a b = PosInf"
  by (cases a; cases b) simp_all

lemma foldl_fl_add_not_NegInf:
  "\<forall>t \<in> set ts. t \<noteq> NegInf \<Longrightarrow> a \<noteq> NegInf \<Longrightarrow> foldl fl_add a ts \<noteq> NegInf"
  by (induction ts arbitrary: a) (simp_all add: fl_add_not_NegInf)

lemma foldl_fl_add_not_NaN:
  "\<forall>t \<in> set ts. t \<noteq> NegInf \<and> t \<noteq> NaN \<Longrightarrow> a \<noteq> NegInf \<Longrightarrow> a \<noteq> NaN
   \<Longrightarrow> foldl fl_add a ts \<noteq> NaN"
  by (induction ts arbitrary: a) (simp_all add: fl_add_not_NegInf fl_add_not_NaN)

lemma foldl_fl_add_top_acc:
  "\<forall>t \<in> set ts. t \<noteq> NegInf \<Longrightarrow> a = NaN \<or> a = PosInf
   \<Longrightarrow> foldl fl_add a ts = NaN \<or> foldl fl_add a ts = PosInf"
proof (induction ts arbitrary: a)
  case Nil
  then show ?case by simp
next
  case (Cons t ts)
  from Cons.prems have "fl_add a t = NaN \<or> fl_add a t = PosInf"
    by (intro fl_add_top_left) simp_all
  with Cons.IH [of "fl_add a t"] Cons.prems(1) show ?case by simp
qed

lemma foldl_fl_add_top:
  "\<forall>t \<in> set ts. t \<noteq> NegInf \<Longrightarrow> a \<noteq> NegInf \<Longrightarrow> \<exists>t \<in> set ts. t = NaN \<or> t = PosInf
   \<Longrightarrow> foldl fl_add a ts = NaN \<or> foldl fl_add a ts = PosInf"
proof (induction ts arbitrary: a)
  case Nil
  then show ?case by simp
next
  case (Cons t ts)
  from Cons.prems(1) have rest: "\<forall>t \<in> set ts. t \<noteq> NegInf" and t: "t \<noteq> NegInf" by simp_all
  show ?case
  proof (cases "t = NaN \<or> t = PosInf")
    case True
    then have "fl_add a t = NaN \<or> fl_add a t = PosInf"
      using Cons.prems(2) by (rule fl_add_top_right)
    from foldl_fl_add_top_acc [OF rest this] show ?thesis by simp
  next
    case False
    with Cons.prems(3) have "\<exists>t \<in> set ts. t = NaN \<or> t = PosInf" by auto
    moreover have "fl_add a t \<noteq> NegInf"
      using Cons.prems(2) t by (rule fl_add_not_NegInf)
    ultimately show ?thesis using Cons.IH [OF rest] by simp
  qed
qed

text \<open>
  The scaled sum of a list of terms none of which is \<open>-inf\<close>: with a term that is \<open>nan\<close> or
  \<open>inf\<close> it is \<open>nan\<close> or \<open>-inf\<close>; with no \<open>nan\<close> term it is finite or \<open>-inf\<close>.
\<close>

lemma scaled_sum_class:
  assumes nn: "\<forall>t \<in> set ts. t \<noteq> NegInf"
  shows "\<exists>t \<in> set ts. t = NaN \<or> t = PosInf
         \<Longrightarrow> fl_mul (Fin (- 0.5)) (overflow_up (np_sum ts)) = NaN \<or> fl_mul (Fin (- 0.5)) (overflow_up (np_sum ts)) = NegInf"
    and "NaN \<notin> set ts
         \<Longrightarrow> fl_mul (Fin (- 0.5)) (overflow_up (np_sum ts)) \<noteq> NaN \<and> fl_mul (Fin (- 0.5)) (overflow_up (np_sum ts)) \<noteq> PosInf"
proof -
  have a: "fl_mul (Fin (- 0.5)) (overflow_up s) = NaN \<or> fl_mul (Fin (- 0.5)) (overflow_up s) = NegInf"
    if "s = NaN \<or> s = PosInf" for s
    using that by (auto simp: signed_inf_def)
  have b: "fl_mul (Fin (- 0.5)) (overflow_up s) \<noteq> NaN
         \<and> fl_mul (Fin (- 0.5)) (overflow_up s) \<noteq> PosInf"
    if "s \<noteq> NaN" "s \<noteq> NegInf" for s
    using that by (cases s) (simp_all add: signed_inf_def)
  show "fl_mul (Fin (- 0.5)) (overflow_up (np_sum ts)) = NaN \<or> fl_mul (Fin (- 0.5)) (overflow_up (np_sum ts)) = NegInf"
    if "\<exists>t \<in> set ts. t = NaN \<or> t = PosInf"
    by (rule a) (use foldl_fl_add_top [OF nn _ that, of "Fin 0"] in \<open>simp add: np_sum_def\<close>)
  show "fl_mul (Fin (- 0.5)) (overflow_up (np_sum ts)) \<noteq> NaN \<and> fl_mul (Fin (- 0.5)) (overflow_up (np_sum ts)) \<noteq> PosInf"
    if "NaN \<notin> set ts"
  proof (rule b)
    from nn that have "\<forall>t \<in> set ts. t \<noteq> NegInf \<and> t \<noteq> NaN" by metis
    from foldl_fl_add_not_NaN [OF this, of "Fin 0"] show "np_sum ts \<noteq> NaN"
      by (simp add: np_sum_def)
    from foldl_fl_add_not_NegInf [OF nn, of "Fin 0"] show "np_sum ts \<noteq> NegInf"
      by (simp add: np_sum_def)
  qed
qed

text \<open>
  A sigma is out of range when its square rounds to zero or to \<open>inf\<close>. The term of such a
  sigma is \<open>nan\<close> or \<open>inf\<close>; the term of any other sigma is finite or \<open>inf\<close>.
\<close>

lemma gauss_term_not_NegInf:
  assumes "r \<noteq> NaN"
  shows "gauss_term d r \<noteq> NegInf"
proof -
  consider "d * d \<le> min_round" | "max_round \<le> d * d" | "min_round < d * d" "d * d < max_round"
    by linarith
  then show ?thesis
    using gauss_term_class [OF assms, of d] by cases auto
qed

text \<open>A finite term is above \<open>-1075\<close>: the sum of the terms overflows only upwards.\<close>

lemma gauss_term_lower:
  assumes "r \<noteq> NaN" "gauss_term d r = Fin v"
  shows "- 1075 \<le> v"
proof -
  consider "d * d \<le> min_round" | "max_round \<le> d * d" | "min_round < d * d" "d * d < max_round"
    by linarith
  then show ?thesis
    using gauss_term_class [OF assms(1), of d] assms(2) by cases auto
qed

lemma gauss_term_out_of_range:
  assumes "r \<noteq> NaN" "d * d \<le> min_round \<or> max_round \<le> d * d"
  shows "gauss_term d r = NaN \<or> gauss_term d r = PosInf"
  using assms(2) gauss_term_class(1,2) [OF assms(1), of d] by blast

lemma gauss_term_inside:
  assumes "r \<noteq> NaN" "\<not> (d * d \<le> min_round \<or> max_round \<le> d * d)"
  shows "gauss_term d r \<noteq> NaN"
proof -
  from assms(2) have "min_round < d * d" "d * d < max_round" by simp_all
  from gauss_term_class(3) [OF assms(1) this] show ?thesis by auto
qed

lemma terms_class:
  assumes rs: "\<forall>p \<in> set ps. snd p \<noteq> NaN"
  shows "\<exists>p \<in> set ps. fst p * fst p \<le> min_round \<or> max_round \<le> fst p * fst p
     \<Longrightarrow> fl_mul (Fin (- 0.5)) (overflow_up (np_sum (map (\<lambda>p. gauss_term (fst p) (snd p)) ps))) = NaN
       \<or> fl_mul (Fin (- 0.5)) (overflow_up (np_sum (map (\<lambda>p. gauss_term (fst p) (snd p)) ps))) = NegInf"
    and "\<forall>p \<in> set ps. \<not> (fst p * fst p \<le> min_round \<or> max_round \<le> fst p * fst p)
     \<Longrightarrow> fl_mul (Fin (- 0.5)) (overflow_up (np_sum (map (\<lambda>p. gauss_term (fst p) (snd p)) ps))) \<noteq> NaN
       \<and> fl_mul (Fin (- 0.5)) (overflow_up (np_sum (map (\<lambda>p. gauss_term (fst p) (snd p)) ps))) \<noteq> PosInf"
proof -
  let ?ts = "map (\<lambda>p. gauss_term (fst p) (snd p)) ps"
  have nn: "\<forall>t \<in> set ?ts. t \<noteq> NegInf"
    using rs by (auto simp: gauss_term_not_NegInf)
  show "fl_mul (Fin (- 0.5)) (overflow_up (np_sum ?ts)) = NaN \<or> fl_mul (Fin (- 0.5)) (overflow_up (np_sum ?ts)) = NegInf"
    if "\<exists>p \<in> set ps. fst p * fst p \<le> min_round \<or> max_round \<le> fst p * fst p"
  proof (rule scaled_sum_class(1) [OF nn])
    from that obtain p where p: "p \<in> set ps"
      "fst p * fst p \<le> min_round \<or> max_round \<le> fst p * fst p" by blast
    from p(1) rs have "snd p \<noteq> NaN" by blast
    from gauss_term_out_of_range [OF this p(2)] p(1)
    show "\<exists>t \<in> set ?ts. t = NaN \<or> t = PosInf" by auto
  qed
  show "fl_mul (Fin (- 0.5)) (overflow_up (np_sum ?ts)) \<noteq> NaN \<and> fl_mul (Fin (- 0.5)) (overflow_up (np_sum ?ts)) \<noteq> PosInf"
    if "\<forall>p \<in> set ps. \<not> (fst p * fst p \<le> min_round \<or> max_round \<le> fst p * fst p)"
  proof (rule scaled_sum_class(2) [OF nn])
    show "NaN \<notin> set ?ts"
    proof
      assume "NaN \<in> set ?ts"
      then obtain p where p: "p \<in> set ps" "gauss_term (fst p) (snd p) = NaN" by auto
      from p(1) rs that have "snd p \<noteq> NaN"
        "\<not> (fst p * fst p \<le> min_round \<or> max_round \<le> fst p * fst p)" by blast+
      from gauss_term_inside [OF this] p(2) show False by simp
    qed
  qed
qed

lemma tail_same:
  assumes len: "length rs = length dy"
  shows "ebind (broadcast np_div (map np_square rs) (map variance dy)) (\<lambda>quot.
          ebind (broadcast np_add (map (\<lambda>v. np_log (np_mul (Fin (2 * pi)) v))
                   (map variance dy)) quot) (\<lambda>terms.
            Inr (fl_mul (Fin (- 0.5)) (overflow_up (np_sum terms)))))
       = Inr (fl_mul (Fin (- 0.5)) (overflow_up (np_sum (map (\<lambda>p. gauss_term (fst p) (snd p)) (zip dy rs)))))"
proof -
  let ?var = "map variance dy"
  let ?logs = "map (\<lambda>v. np_log (np_mul (Fin (2 * pi)) v)) ?var"
  let ?quot = "map2 np_div (map np_square rs) ?var"
  have q: "broadcast np_div (map np_square rs) ?var = Inr ?quot"
    using len by (simp add: broadcast_same)
  have t: "broadcast np_add ?logs ?quot = Inr (map2 np_add ?logs ?quot)"
    using len by (simp add: broadcast_same)
  have e: "map2 np_add ?logs ?quot = map (\<lambda>p. gauss_term (fst p) (snd p)) (zip dy rs)"
    by (rule nth_equalityI) (use len in \<open>simp_all add: gauss_term_def\<close>)
  show ?thesis unfolding q ebind_Inr t e ..
qed

lemma tail_one:
  assumes len: "length dy \<noteq> 1"
  shows "ebind (broadcast np_div (map np_square [r]) (map variance dy)) (\<lambda>quot.
          ebind (broadcast np_add (map (\<lambda>v. np_log (np_mul (Fin (2 * pi)) v))
                   (map variance dy)) quot) (\<lambda>terms.
            Inr (fl_mul (Fin (- 0.5)) (overflow_up (np_sum terms)))))
       = Inr (fl_mul (Fin (- 0.5)) (overflow_up (np_sum (map (\<lambda>p. gauss_term (fst p) (snd p))
                (map (\<lambda>d. (d, r)) dy)))))"
proof -
  let ?var = "map variance dy"
  let ?logs = "map (\<lambda>v. np_log (np_mul (Fin (2 * pi)) v)) ?var"
  let ?quot = "map (np_div (np_square r)) ?var"
  have q: "broadcast np_div (map np_square [r]) ?var = Inr ?quot"
    using len by (simp add: broadcast_def)
  have t: "broadcast np_add ?logs ?quot = Inr (map2 np_add ?logs ?quot)"
    by (simp add: broadcast_same)
  have e: "map2 np_add ?logs ?quot = map (\<lambda>p. gauss_term (fst p) (snd p)) (map (\<lambda>d. (d, r)) dy)"
    by (rule nth_equalityI) (simp_all add: gauss_term_def)
  show ?thesis unfolding q ebind_Inr t e ..
qed

lemma tail_stretch:
  assumes len: "length rs \<noteq> 1"
  shows "ebind (broadcast np_div (map np_square rs) (map variance [d])) (\<lambda>quot.
          ebind (broadcast np_add (map (\<lambda>v. np_log (np_mul (Fin (2 * pi)) v))
                   (map variance [d])) quot) (\<lambda>terms.
            Inr (fl_mul (Fin (- 0.5)) (overflow_up (np_sum terms)))))
       = Inr (fl_mul (Fin (- 0.5)) (overflow_up (np_sum (map (\<lambda>p. gauss_term (fst p) (snd p))
                (map (\<lambda>r. (d, r)) rs)))))"
proof -
  let ?log = "np_log (np_mul (Fin (2 * pi)) (variance d))"
  let ?quot = "map (\<lambda>r. np_div (np_square r) (variance d)) rs"
  have q: "broadcast np_div (map np_square rs) (map variance [d]) = Inr ?quot"
    using len by (simp add: broadcast_def comp_def)
  have t: "broadcast np_add (map (\<lambda>v. np_log (np_mul (Fin (2 * pi)) v))
              (map variance [d])) ?quot
           = Inr (map (np_add ?log) ?quot)"
    using len by (simp add: broadcast_def)
  have e: "map (np_add ?log) ?quot = map (\<lambda>p. gauss_term (fst p) (snd p)) (map (\<lambda>r. (d, r)) rs)"
    by (simp add: gauss_term_def comp_def)
  show ?thesis unfolding q ebind_Inr t e ..
qed

lemma tail_bad:
  assumes "length rs \<noteq> length dy" "length rs \<noteq> 1" "length dy \<noteq> 1"
  shows "ebind (broadcast np_div (map np_square rs) (map variance dy)) F
       = Inl ValueError"
  using assms by (simp add: broadcast_def)

text \<open>
  Whatever the shapes, the sigmas that enter the terms are the same at every grid point.
\<close>

lemma tail_pairs:
  assumes T: "\<And>rs. T rs =
     ebind (broadcast np_div (map np_square rs) (map variance dy)) (\<lambda>quot.
       ebind (broadcast np_add (map (\<lambda>v. np_log (np_mul (Fin (2 * pi)) v))
                (map variance dy)) quot) (\<lambda>terms.
         Inr (fl_mul (Fin (- 0.5)) (overflow_up (np_sum terms)))))"
    and compat: "n = length dy \<or> n = 1 \<or> length dy = 1"
  shows "\<exists>ds. \<forall>rs. length rs = n \<longrightarrow>
           (\<exists>ps. map fst ps = ds \<and> set (map snd ps) \<subseteq> set rs
              \<and> T rs = Inr (fl_mul (Fin (- 0.5))
                               (overflow_up (np_sum (map (\<lambda>p. gauss_term (fst p) (snd p)) ps)))))"
proof -
  consider (same) "n = length dy" | (one) "n \<noteq> length dy" "n = 1"
    | (stretch) "n \<noteq> length dy" "n \<noteq> 1" "length dy = 1"
    using compat by blast
  then show ?thesis
  proof cases
    case same
    have "\<exists>ps. map fst ps = dy \<and> set (map snd ps) \<subseteq> set rs
              \<and> T rs = Inr (fl_mul (Fin (- 0.5))
                               (overflow_up (np_sum (map (\<lambda>p. gauss_term (fst p) (snd p)) ps))))"
      if "length rs = n" for rs
    proof -
      from that same have len: "length rs = length dy" by simp
      have "T rs = Inr (fl_mul (Fin (- 0.5))
               (overflow_up (np_sum (map (\<lambda>p. gauss_term (fst p) (snd p)) (zip dy rs)))))"
        unfolding T by (rule tail_same [OF len])
      moreover have "map fst (zip dy rs) = dy" "set (map snd (zip dy rs)) \<subseteq> set rs"
        using len by simp_all
      ultimately show ?thesis by blast
    qed
    then show ?thesis by blast
  next
    case one
    have "\<exists>ps. map fst ps = dy \<and> set (map snd ps) \<subseteq> set rs
              \<and> T rs = Inr (fl_mul (Fin (- 0.5))
                               (overflow_up (np_sum (map (\<lambda>p. gauss_term (fst p) (snd p)) ps))))"
      if "length rs = n" for rs
    proof -
      from that one obtain r where rs: "rs = [r]" by (cases rs) auto
      from one have "length dy \<noteq> 1" by simp
      from tail_one [OF this, of r]
      have "T rs = Inr (fl_mul (Fin (- 0.5))
               (overflow_up (np_sum (map (\<lambda>p. gauss_term (fst p) (snd p)) (map (\<lambda>d. (d, r)) dy)))))"
        unfolding T rs .
      moreover have "map fst (map (\<lambda>d. (d, r)) dy) = dy"
        "set (map snd (map (\<lambda>d. (d, r)) dy)) \<subseteq> set rs"
        unfolding rs by (auto simp: comp_def)
      ultimately show ?thesis by blast
    qed
    then show ?thesis by blast
  next
    case stretch
    then obtain d where dy: "dy = [d]" by (cases dy) auto
    have "\<exists>ps. map fst ps = replicate n d \<and> set (map snd ps) \<subseteq> set rs
              \<and> T rs = Inr (fl_mul (Fin (- 0.5))
                               (overflow_up (np_sum (map (\<lambda>p. gauss_term (fst p) (snd p)) ps))))"
      if "length rs = n" for rs
    proof -
      from that stretch have "length rs \<noteq> 1" by simp
      from tail_stretch [OF this, of d]
      have "T rs = Inr (fl_mul (Fin (- 0.5))
               (overflow_up (np_sum (map (\<lambda>p. gauss_term (fst p) (snd p)) (map (\<lambda>r. (d, r)) rs)))))"
        unfolding T dy .
      moreover have "map fst (map (\<lambda>r. (d, r)) rs) = replicate n d"
        using that by (simp add: comp_def map_replicate_const)
      moreover have "set (map snd (map (\<lambda>r. (d, r)) rs)) \<subseteq> set rs"
        by (auto simp: comp_def)
      ultimately show ?thesis by blast
    qed
    then show ?thesis by blast
  qed
qed

lemma tail_class:
  assumes T: "\<And>rs. T rs =
     ebind (broadcast np_div (map np_square rs) (map variance dy)) (\<lambda>quot.
       ebind (broadcast np_add (map (\<lambda>v. np_log (np_mul (Fin (2 * pi)) v))
                (map variance dy)) quot) (\<lambda>terms.
         Inr (fl_mul (Fin (- 0.5)) (overflow_up (np_sum terms)))))"
  shows "(\<forall>rs. length rs = n \<longrightarrow> T rs = Inl ValueError)
       \<or> (\<forall>rs. length rs = n \<and> NaN \<notin> set rs \<longrightarrow> (\<exists>r. T rs = Inr r \<and> (r = NaN \<or> r = NegInf)))
       \<or> (\<forall>rs. length rs = n \<and> NaN \<notin> set rs \<longrightarrow> (\<exists>r. T rs = Inr r \<and> r \<noteq> NaN \<and> r \<noteq> PosInf))"
proof (cases "n = length dy \<or> n = 1 \<or> length dy = 1")
  case False
  have "T rs = Inl ValueError" if "length rs = n" for rs
    unfolding T using that False by (intro tail_bad) simp_all
  then show ?thesis by blast
next
  case True
  from tail_pairs [of T dy n, OF T True] obtain ds where
    ds: "\<And>rs. length rs = n \<Longrightarrow> \<exists>ps. map fst ps = ds \<and> set (map snd ps) \<subseteq> set rs
              \<and> T rs = Inr (fl_mul (Fin (- 0.5))
                               (overflow_up (np_sum (map (\<lambda>p. gauss_term (fst p) (snd p)) ps))))"
    by blast
  show ?thesis
  proof (cases "\<exists>d \<in> set ds. d * d \<le> min_round \<or> max_round \<le> d * d")
    case out: True
    have "\<exists>r. T rs = Inr r \<and> (r = NaN \<or> r = NegInf)" if len: "length rs = n" and nn: "NaN \<notin> set rs"
      for rs
    proof -
      from ds [OF len] obtain ps where ps: "map fst ps = ds" "set (map snd ps) \<subseteq> set rs"
        "T rs = Inr (fl_mul (Fin (- 0.5)) (overflow_up (np_sum (map (\<lambda>p. gauss_term (fst p) (snd p)) ps))))"
        by blast
      from ps(2) nn have a: "\<forall>p \<in> set ps. snd p \<noteq> NaN" by force
      from out obtain d where "d \<in> set ds" "d * d \<le> min_round \<or> max_round \<le> d * d" by blast
      with ps(1) have "\<exists>p \<in> set ps. fst p * fst p \<le> min_round \<or> max_round \<le> fst p * fst p"
        by force
      from terms_class(1) [OF a this] ps(3) show ?thesis by simp
    qed
    then show ?thesis by blast
  next
    case inside: False
    have "\<exists>r. T rs = Inr r \<and> r \<noteq> NaN \<and> r \<noteq> PosInf" if len: "length rs = n" and nn: "NaN \<notin> set rs"
      for rs
    proof -
      from ds [OF len] obtain ps where ps: "map fst ps = ds" "set (map snd ps) \<subseteq> set rs"
        "T rs = Inr (fl_mul (Fin (- 0.5)) (overflow_up (np_sum (map (\<lambda>p. gauss_term (fst p) (snd p)) ps))))"
        by blast
      from ps(2) nn have a: "\<forall>p \<in> set ps. snd p \<noteq> NaN" by force
      have "\<forall>p \<in> set ps. \<not> (fst p * fst p \<le> min_round \<or> max_round \<le> fst p * fst p)"
      proof
        fix p assume "p \<in> set ps"
        then have "fst p \<in> set (map fst ps)" by simp
        with ps(1) inside show "\<not> (fst p * fst p \<le> min_round \<or> max_round \<le> fst p * fst p)"
          by blast
      qed
      from terms_class(2) [OF a this] ps(3) show ?thesis by simp
    qed
    then show ?thesis by blast
  qed
qed

lemma broadcast_not_NaN:
  assumes compat: "length ys = length ms \<or> length ys = 1 \<or> length ms = 1"
    and f: "\<And>a b. a \<in> set ys \<Longrightarrow> b \<in> set ms \<Longrightarrow> f a b \<noteq> NaN"
  shows "\<exists>rs. length rs = (if length ys = length ms \<or> length ms = 1 then length ys else length ms)
           \<and> NaN \<notin> set rs \<and> broadcast f ys ms = Inr rs"
proof -
  consider (same) "length ys = length ms" | (left) "length ys \<noteq> length ms" "length ys = 1"
    | (right) "length ys \<noteq> length ms" "length ys \<noteq> 1" "length ms = 1"
    using compat by blast
  then show ?thesis
  proof cases
    case same
    have "broadcast f ys ms = Inr (map2 f ys ms)"
      using same by (simp add: broadcast_def)
    moreover have "length (map2 f ys ms) = length ys" using same by simp
    moreover have "NaN \<notin> set (map2 f ys ms)"
    proof
      assume "NaN \<in> set (map2 f ys ms)"
      then obtain a b where "(a, b) \<in> set (zip ys ms)" "f a b = NaN" by auto
      with f [of a b] show False by (auto dest: set_zip_leftD set_zip_rightD)
    qed
    ultimately show ?thesis using same by (intro exI [of _ "map2 f ys ms"]) simp
  next
    case left
    then have hd: "hd ys \<in> set ys" by (cases ys) auto
    have "broadcast f ys ms = Inr (map (f (hd ys)) ms)"
      using left by (simp add: broadcast_def)
    moreover have "NaN \<notin> set (map (f (hd ys)) ms)"
      using f [OF hd] by force
    ultimately show ?thesis using left by (intro exI [of _ "map (f (hd ys)) ms"]) simp
  next
    case right
    then have hd: "hd ms \<in> set ms" by (cases ms) auto
    have "broadcast f ys ms = Inr (map (\<lambda>a. f a (hd ms)) ys)"
      using right by (simp add: broadcast_def)
    moreover have "NaN \<notin> set (map (\<lambda>a. f a (hd ms)) ys)"
      using f [OF _ hd] by force
    ultimately show ?thesis using right by (intro exI [of _ "map (\<lambda>a. f a (hd ms)) ys"]) simp
  qed
qed

text \<open>
  Over a whole grid the likelihood is of one kind: a shape error at every grid point; or
  \<open>nan\<close> or \<open>-inf\<close> at every grid point, when a sigma is out of range; or a finite value or
  \<open>-inf\<close> at every grid point.
\<close>

lemma log_likelihood_class:
  "(\<forall>b m. log_likelihood [b, m] x y dy = Inl ValueError)
   \<or> (\<forall>b m. \<exists>r. log_likelihood [b, m] x y dy = Inr r \<and> (r = NaN \<or> r = NegInf))
   \<or> (\<forall>b m. \<exists>r. log_likelihood [b, m] x y dy = Inr r \<and> r \<noteq> NaN \<and> r \<noteq> PosInf)"
proof -
  define T where "T rs =
     ebind (broadcast np_div (map np_square rs) (map variance dy)) (\<lambda>quot.
       ebind (broadcast np_add (map (\<lambda>v. np_log (np_mul (Fin (2 * pi)) v))
                (map variance dy)) quot) (\<lambda>terms.
         Inr (fl_mul (Fin (- 0.5)) (overflow_up (np_sum terms)))))" for rs
  define n where "n = (if length y = length x \<or> length x = 1 then length y else length x)"
  define ym where "ym b m = map (\<lambda>xi. np_add (Fin b) (np_mul (Fin m) (Fin xi))) x" for b m :: real
  have ll: "log_likelihood [b, m] x y dy = ebind (broadcast np_sub (map Fin y) (ym b m)) T" for b m
    unfolding T_def ym_def by (simp add: log_likelihood_def index_def Let_def)
  show ?thesis
  proof (cases "length y = length x \<or> length y = 1 \<or> length x = 1")
    case False
    have "log_likelihood [b, m] x y dy = Inl ValueError" for b m
      unfolding ll using False by (simp add: broadcast_def ym_def)
    then show ?thesis by blast
  next
    case True
    have step: "\<exists>rs. length rs = n \<and> NaN \<notin> set rs \<and> log_likelihood [b, m] x y dy = T rs" for b m
    proof -
      from True have c: "length (map Fin y) = length (ym b m) \<or> length (map Fin y) = 1
            \<or> length (ym b m) = 1" by (simp add: ym_def)
      have nn: "np_sub a c \<noteq> NaN" if "a \<in> set (map Fin y)" "c \<in> set (ym b m)" for a c
      proof -
        from that obtain yi xi where "a = Fin yi" "c = np_add (Fin b) (np_mul (Fin m) (Fin xi))"
          by (auto simp: ym_def)
        then show ?thesis using residual_not_NaN [of b m xi yi] by (simp add: residual_def)
      qed
      from broadcast_not_NaN [of "map Fin y" "ym b m" np_sub, OF c nn] obtain rs where
        rs0: "length rs = (if length (map Fin y) = length (ym b m) \<or> length (ym b m) = 1
                 then length (map Fin y) else length (ym b m))"
        and rs1: "NaN \<notin> set rs"
        and rs2: "broadcast np_sub (map Fin y) (ym b m) = Inr rs"
        by blast
      from rs0 have "length rs = n" by (simp add: n_def ym_def)
      moreover have "log_likelihood [b, m] x y dy = T rs"
        unfolding ll rs2 ebind_Inr ..
      ultimately show ?thesis using rs1 by blast
    qed
    from tail_class [of T dy n, OF T_def]
    consider (err) "\<forall>rs. length rs = n \<longrightarrow> T rs = Inl ValueError"
      | (out) "\<forall>rs. length rs = n \<and> NaN \<notin> set rs \<longrightarrow> (\<exists>r. T rs = Inr r \<and> (r = NaN \<or> r = NegInf))"
      | (fin) "\<forall>rs. length rs = n \<and> NaN \<notin> set rs \<longrightarrow> (\<exists>r. T rs = Inr r \<and> r \<noteq> NaN \<and> r \<noteq> PosInf)"
      by blast
    then show ?thesis
    proof cases
      case err
      have "log_likelihood [b, m] x y dy = Inl ValueError" for b m
      proof -
        from step [of b m] obtain rs where "length rs = n" "log_likelihood [b, m] x y dy = T rs"
          by blast
        with err show ?thesis by simp
      qed
      then show ?thesis by blast
    next
      case out
      have "\<exists>r. log_likelihood [b, m] x y dy = Inr r \<and> (r = NaN \<or> r = NegInf)" for b m
      proof -
        from step [of b m] obtain rs where "length rs = n" "NaN \<notin> set rs"
          "log_likelihood [b, m] x y dy = T rs"
          by blast
        with out show ?thesis by simp
      qed
      then show ?thesis by blast
    next
      case fin
      have "\<exists>r. log_likelihood [b, m] x y dy = Inr r \<and> r \<noteq> NaN \<and> r \<noteq> PosInf" for b m
      proof -
        from step [of b m] obtain rs where "length rs = n" "NaN \<notin> set rs"
          "log_likelihood [b, m] x y dy = T rs"
          by blast
        with fin show ?thesis by simp
      qed
      then show ?thesis by blast
    qed
  qed
qed

text \<open>With equal lengths and every sigma in range the likelihood is finite or \<open>-inf\<close>.\<close>

lemma log_likelihood_inside:
  assumes th: "2 \<le> length theta" and len: "length y = length x" "length dy = length x"
    and ok: "\<forall>d \<in> set dy. \<not> (d * d \<le> min_round \<or> max_round \<le> d * d)"
  shows "\<exists>r. log_likelihood theta x y dy = Inr r \<and> r \<noteq> NaN \<and> r \<noteq> PosInf"
proof -
  let ?ps = "map (\<lambda>i. (dy ! i, residual (theta ! 0) (theta ! 1) (x ! i) (y ! i))) [0..<length x]"
  have a: "\<forall>p \<in> set ?ps. snd p \<noteq> NaN"
    by (auto simp: residual_not_NaN)
  have b: "\<forall>p \<in> set ?ps. \<not> (fst p * fst p \<le> min_round \<or> max_round \<le> fst p * fst p)"
  proof
    fix p assume "p \<in> set ?ps"
    then obtain i where "i < length x" "fst p = dy ! i" by auto
    with len have "fst p \<in> set dy" by simp
    with ok show "\<not> (fst p * fst p \<le> min_round \<or> max_round \<le> fst p * fst p)" by blast
  qed
  have eq: "map (\<lambda>p. gauss_term (fst p) (snd p)) ?ps
        = map (\<lambda>i. gauss_term (dy ! i) (residual (theta ! 0) (theta ! 1) (x ! i) (y ! i)))
            [0..<length x]"
    by (simp add: comp_def)
  from terms_class(2) [OF a b, unfolded eq] show ?thesis
    unfolding log_likelihood_same [OF th len] by blast
qed

subsection \<open>The two log-posterior grids\<close>

lemma sequence_err_grid:
  assumes "\<And>b m. cell b m = Inr (c b m)"
  shows "sequence_err (map (\<lambda>b. sequence_err (map (\<lambda>m. cell b m) sr)) ir)
         = Inr (map (\<lambda>b. map (\<lambda>m. c b m) sr) ir)"
  by (simp add: assms sequence_err_Inr)

lemma sequence_err_error: "xs \<noteq> [] \<Longrightarrow> (\<And>x. f x = Inl e) \<Longrightarrow> sequence_err (map f xs) = Inl e"
  by (cases xs) simp_all

lemma symmetric_prior_values:
  "\<exists>q. \<forall>b m. log_symmetric_prior [NpFloat b, NpFloat m] = Inr (q b m)
          \<and> q b m \<noteq> NaN \<and> q b m \<noteq> PosInf \<and> (1000 \<le> \<bar>b\<bar> \<longrightarrow> q b m = NegInf)"
  using log_symmetric_prior_np by metis

lemma grids_of_values:
  assumes c: "\<And>b m. log_likelihood [b, m] x y dy = Inr (c b m)"
    and q: "\<And>b m. log_symmetric_prior [NpFloat b, NpFloat m] = Inr (q b m)"
  shows "log_P1 x y dy sr ir
          = Inr (map (\<lambda>b. map (\<lambda>m. fl_add (c b m) (log_flat_prior [b, m])) sr) ir)"
    and "log_P2 x y dy sr ir = Inr (map (\<lambda>b. map (\<lambda>m. fl_add (c b m) (q b m)) sr) ir)"
proof -
  show "log_P1 x y dy sr ir
          = Inr (map (\<lambda>b. map (\<lambda>m. fl_add (c b m) (log_flat_prior [b, m])) sr) ir)"
    unfolding log_P1_def by (rule sequence_err_grid) (simp add: c)
  show "log_P2 x y dy sr ir = Inr (map (\<lambda>b. map (\<lambda>m. fl_add (c b m) (q b m)) sr) ir)"
    unfolding log_P2_def by (rule sequence_err_grid) (simp add: c q)
qed

lemma log_grids:
  assumes ne: "sr \<noteq> []" "ir \<noteq> []"
  shows "(log_P1 x y dy sr ir = Inl ValueError \<and> log_P2 x y dy sr ir = Inl ValueError)
     \<or> (\<exists>c q. ((\<forall>b m. c b m = NaN \<or> c b m = NegInf) \<or> (\<forall>b m. c b m \<noteq> NaN \<and> c b m \<noteq> PosInf))
          \<and> (\<forall>b m. q b m \<noteq> NaN \<and> q b m \<noteq> PosInf)
          \<and> log_P1 x y dy sr ir
              = Inr (map (\<lambda>b. map (\<lambda>m. fl_add (c b m) (log_flat_prior [b, m])) sr) ir)
          \<and> log_P2 x y dy sr ir
              = Inr (map (\<lambda>b. map (\<lambda>m. fl_add (c b m) (q b m)) sr) ir))"
proof -
  from symmetric_prior_values obtain q where
    q: "\<And>b m. log_symmetric_prior [NpFloat b, NpFloat m] = Inr (q b m)"
    and qc: "\<And>b m. q b m \<noteq> NaN \<and> q b m \<noteq> PosInf"
    by blast
  from log_likelihood_class [of x y dy]
  consider (err) "\<forall>b m. log_likelihood [b, m] x y dy = Inl ValueError"
    | (out) "\<forall>b m. \<exists>r. log_likelihood [b, m] x y dy = Inr r \<and> (r = NaN \<or> r = NegInf)"
    | (fin) "\<forall>b m. \<exists>r. log_likelihood [b, m] x y dy = Inr r \<and> r \<noteq> NaN \<and> r \<noteq> PosInf"
    by blast
  then show ?thesis
  proof cases
    case err
    have "log_P1 x y dy sr ir = Inl ValueError"
      unfolding log_P1_def
      by (rule sequence_err_error [OF ne(2)], rule sequence_err_error [OF ne(1)]) (simp add: err)
    moreover have "log_P2 x y dy sr ir = Inl ValueError"
      unfolding log_P2_def
      by (rule sequence_err_error [OF ne(2)], rule sequence_err_error [OF ne(1)]) (simp add: err)
    ultimately show ?thesis by blast
  next
    case out
    then obtain c where c: "\<And>b m. log_likelihood [b, m] x y dy = Inr (c b m)"
      and cc: "\<And>b m. c b m = NaN \<or> c b m = NegInf"
      by metis
    from grids_of_values [of x y dy c q, OF c q] cc qc show ?thesis
      by (intro disjI2 exI [of _ c] exI [of _ q]) simp
  next
    case fin
    then obtain c where c: "\<And>b m. log_likelihood [b, m] x y dy = Inr (c b m)"
      and cc: "\<And>b m. c b m \<noteq> NaN \<and> c b m \<noteq> PosInf"
      by metis
    from grids_of_values [of x y dy c q, OF c q] cc qc show ?thesis
      by (intro disjI2 exI [of _ c] exI [of _ q]) simp
  qed
qed

lemma cell_class:
  assumes "p \<noteq> NaN" "p \<noteq> PosInf"
  shows "c = NaN \<or> c = NegInf \<Longrightarrow> fl_add c p = NaN \<or> fl_add c p = NegInf"
    and "c \<noteq> NaN \<and> c \<noteq> PosInf \<Longrightarrow> fl_add c p \<noteq> NaN \<and> fl_add c p \<noteq> PosInf"
  using assms by (cases c; cases p; simp)+

lemma flat_prior_class: "log_flat_prior t \<noteq> NaN" "log_flat_prior t \<noteq> PosInf"
  by (simp_all add: log_flat_prior_def)

subsection \<open>The function as a whole\<close>

lemma length_linspace: "length (linspace l) = 50"
  by (cases l) (simp add: linspace_def)

lemma linspace_start: "a \<in> set (linspace (a, b))"
proof -
  have "a = (\<lambda>i. a + real i * ((b - a) / 49)) 0" by simp
  moreover have "(0::nat) \<in> set [0..<50]" by simp
  ultimately show ?thesis
    unfolding linspace_def prod.case set_map by (rule image_eqI)
qed

lemma linspace_lower: "a \<le> b \<Longrightarrow> v \<in> set (linspace (a, b)) \<Longrightarrow> a \<le> v"
  by (auto simp: linspace_def simp del: upt_Suc)

lemma grid_nonempty: "sr \<noteq> [] \<Longrightarrow> ir \<noteq> [] \<Longrightarrow> concat (map (\<lambda>b. map (c b) sr) ir) \<noteq> []"
  by (cases ir) simp_all

lemma grid_entries:
  "e \<in> set (concat (map (\<lambda>b. map (c b) sr) ir)) \<longleftrightarrow> (\<exists>b \<in> set ir. \<exists>m \<in> set sr. e = c b m)"
  by auto

lemma unit_sum_pos:
  fixes xs :: "real list"
  assumes "\<forall>v \<in> set xs. 0 \<le> v" "1 \<in> set xs"
  shows "0 < sum_list xs"
proof -
  from assms(2) obtain ys zs where xs: "xs = ys @ 1 # zs"
    by (meson split_list)
  have "0 \<le> sum_list ys" "0 \<le> sum_list zs"
    using assms(1) unfolding xs by (auto intro: sum_list_nonneg)
  then show ?thesis unfolding xs by simp
qed

lemma normalized_length:
  "normalized g = Inr P \<Longrightarrow> length (concat P) = length (concat g)"
  by (auto simp: normalized_def ebind_def concat_map_map split: sum.splits)

lemma grid_shape:
  assumes c: "(\<forall>b m. c b m = NaN \<or> c b m = NegInf) \<or> (\<forall>b m. c b m \<noteq> NaN \<and> c b m \<noteq> PosInf)"
    and p: "\<And>b m. p b m \<noteq> NaN \<and> p b m \<noteq> PosInf"
  shows "(\<forall>e \<in> set (concat (map (\<lambda>b. map (\<lambda>m. fl_add (c b m) (p b m)) sr) ir)). e = NaN \<or> e = NegInf)
       \<or> (\<forall>e \<in> set (concat (map (\<lambda>b. map (\<lambda>m. fl_add (c b m) (p b m)) sr) ir)).
             e \<noteq> NaN \<and> e \<noteq> PosInf)"
  using c
proof
  assume out: "\<forall>b m. c b m = NaN \<or> c b m = NegInf"
  have "\<forall>e \<in> set (concat (map (\<lambda>b. map (\<lambda>m. fl_add (c b m) (p b m)) sr) ir)). e = NaN \<or> e = NegInf"
  proof
    fix e assume "e \<in> set (concat (map (\<lambda>b. map (\<lambda>m. fl_add (c b m) (p b m)) sr) ir))"
    then obtain b m where e: "e = fl_add (c b m) (p b m)"
      unfolding grid_entries by blast
    from out have "c b m = NaN \<or> c b m = NegInf" by blast
    from cell_class(1) [OF _ _ this, of "p b m"] p [of b m] e show "e = NaN \<or> e = NegInf"
      by blast
  qed
  then show ?thesis ..
next
  assume fin: "\<forall>b m. c b m \<noteq> NaN \<and> c b m \<noteq> PosInf"
  have "\<forall>e \<in> set (concat (map (\<lambda>b. map (\<lambda>m. fl_add (c b m) (p b m)) sr) ir)).
          e \<noteq> NaN \<and> e \<noteq> PosInf"
  proof
    fix e assume "e \<in> set (concat (map (\<lambda>b. map (\<lambda>m. fl_add (c b m) (p b m)) sr) ir))"
    then obtain b m where e: "e = fl_add (c b m) (p b m)"
      unfolding grid_entries by blast
    from fin have "c b m \<noteq> NaN \<and> c b m \<noteq> PosInf" by blast
    from cell_class(2) [OF _ _ this, of "p b m"] p [of b m] e show "e \<noteq> NaN \<and> e \<noteq> PosInf"
      by simp
  qed
  then show ?thesis ..
qed

lemma density_total:
  assumes ne: "concat g \<noteq> []"
    and shape: "(\<forall>e \<in> set (concat g). e = NaN \<or> e = NegInf)
              \<or> (\<forall>e \<in> set (concat g). e \<noteq> NaN \<and> e \<noteq> PosInf)"
  shows "\<exists>P lv. normalized g = Inr P \<and> contour_levels P = Inr lv"
proof -
  have nan_grid: "\<exists>lv. contour_levels (map (map (\<lambda>_. NaN)) g) = Inr lv"
  proof -
    have "concat (map (map (\<lambda>_. NaN)) g) = map (\<lambda>_. NaN) (concat g)"
      by (rule concat_map_map)
    with ne have "concat (map (map (\<lambda>_. NaN)) g) \<noteq> []"
      "\<forall>e \<in> set (concat (map (map (\<lambda>_. NaN)) g)). e = NaN"
      by auto
    from contour_levels_all_NaN [OF this] show ?thesis by blast
  qed
  consider (nan) "NaN \<in> set (concat g)"
    | (fin) "\<forall>e \<in> set (concat g). e \<noteq> NaN \<and> e \<noteq> PosInf" "\<exists>v. Fin v \<in> set (concat g)"
    | (neg) "\<forall>e \<in> set (concat g). e = NegInf"
  proof (cases "NaN \<in> set (concat g)")
    case True
    then show ?thesis by (rule that(1))
  next
    case False
    have ok: "\<forall>e \<in> set (concat g). e \<noteq> NaN \<and> e \<noteq> PosInf"
      using shape
    proof
      assume out: "\<forall>e \<in> set (concat g). e = NaN \<or> e = NegInf"
      show ?thesis
      proof
        fix e assume e: "e \<in> set (concat g)"
        with False have "e \<noteq> NaN" by blast
        with out e have "e = NegInf" by blast
        then show "e \<noteq> NaN \<and> e \<noteq> PosInf" by simp
      qed
    qed
    show ?thesis
    proof (cases "\<exists>v. Fin v \<in> set (concat g)")
      case True
      with ok show ?thesis by (rule that(2))
    next
      case False
      have "\<forall>e \<in> set (concat g). e = NegInf"
      proof
        fix e assume e: "e \<in> set (concat g)"
        with ok False show "e = NegInf" by (cases e) auto
      qed
      then show ?thesis by (rule that(3))
    qed
  qed
  then show ?thesis
  proof cases
    case nan
    from normalized_has_NaN [OF nan] nan_grid show ?thesis by blast
  next
    case fin
    from normalized_unit_max [OF fin] obtain P where
      P: "normalized g = Inr (map (map Fin) P)" "\<forall>v \<in> set (concat P). 0 \<le> v \<and> v \<le> 1"
         "1 \<in> set (concat P)"
      by blast
    from P(2,3) have "0 < sum_list (concat P)"
      by (intro unit_sum_pos) auto
    from contour_levels_cutoffs [OF this] P(1) show ?thesis by blast
  next
    case neg
    from normalized_all_NegInf [OF ne neg] nan_grid show ?thesis by blast
  qed
qed

lemma plot_results_structure:
  "(plot_results x y dy sl il = Inl ValueError
      \<and> log_P1 x y dy (linspace sl) (linspace il) = Inl ValueError)
   \<or> (\<exists>r g1 g2. plot_results x y dy sl il = Inr r
    \<and> log_P1 x y dy (linspace sl) (linspace il) = Inr g1
    \<and> log_P2 x y dy (linspace sl) (linspace il) = Inr g2
    \<and> normalized g1 = Inr (ax0_density r) \<and> normalized g2 = Inr (ax1_density r)
    \<and> contour_levels (ax0_density r) = Inr (ax0_levels r) \<and> ax1_levels r = ax0_levels r
    \<and> concat g1 \<noteq> [] \<and> concat g2 \<noteq> []
    \<and> ((\<forall>e \<in> set (concat g1). e = NaN \<or> e = NegInf)
         \<or> (\<forall>e \<in> set (concat g1). e \<noteq> NaN \<and> e \<noteq> PosInf))
    \<and> ((\<forall>e \<in> set (concat g2). e = NaN \<or> e = NegInf)
         \<or> (\<forall>e \<in> set (concat g2). e \<noteq> NaN \<and> e \<noteq> PosInf)))"
proof -
  let ?sr = "linspace sl" and ?ir = "linspace il"
  have ne: "?sr \<noteq> []" "?ir \<noteq> []"
    using length_linspace [of sl] length_linspace [of il] by auto
  from log_grids [OF ne, of x y dy]
  consider (err) "log_P1 x y dy ?sr ?ir = Inl ValueError"
    | (ok) c q where
        "(\<forall>b m. c b m = NaN \<or> c b m = NegInf) \<or> (\<forall>b m. c b m \<noteq> NaN \<and> c b m \<noteq> PosInf)"
        "\<forall>b m. q b m \<noteq> NaN \<and> q b m \<noteq> PosInf"
        "log_P1 x y dy ?sr ?ir
          = Inr (map (\<lambda>b. map (\<lambda>m. fl_add (c b m) (log_flat_prior [b, m])) ?sr) ?ir)"
        "log_P2 x y dy ?sr ?ir = Inr (map (\<lambda>b. map (\<lambda>m. fl_add (c b m) (q b m)) ?sr) ?ir)"
    by blast
  then show ?thesis
  proof cases
    case err
    then have "plot_results x y dy sl il = Inl ValueError"
      by (simp add: plot_results_def Let_def)
    with err show ?thesis by blast
  next
    case ok
    let ?g1 = "map (\<lambda>b. map (\<lambda>m. fl_add (c b m) (log_flat_prior [b, m])) ?sr) ?ir"
    let ?g2 = "map (\<lambda>b. map (\<lambda>m. fl_add (c b m) (q b m)) ?sr) ?ir"
    note g1 = ok(3) and g2 = ok(4)
    have ne1: "concat ?g1 \<noteq> []" and ne2: "concat ?g2 \<noteq> []"
      using ne by (simp_all add: grid_nonempty)
    have shape1: "(\<forall>e \<in> set (concat ?g1). e = NaN \<or> e = NegInf)
        \<or> (\<forall>e \<in> set (concat ?g1). e \<noteq> NaN \<and> e \<noteq> PosInf)"
      by (rule grid_shape [OF ok(1)]) (simp add: flat_prior_class)
    have shape2: "(\<forall>e \<in> set (concat ?g2). e = NaN \<or> e = NegInf)
        \<or> (\<forall>e \<in> set (concat ?g2). e \<noteq> NaN \<and> e \<noteq> PosInf)"
      by (rule grid_shape [OF ok(1)]) (use ok(2) in blast)
    from density_total [OF ne1 shape1] obtain P1 lv where
      P1: "normalized ?g1 = Inr P1" "contour_levels P1 = Inr lv" by blast
    from density_total [OF ne2 shape2] obtain P2 where
      P2: "normalized ?g2 = Inr P2" by blast
    have "plot_results x y dy sl il
          = Inr \<lparr>ax0_density = P1, ax0_levels = lv, ax1_density = P2, ax1_levels = lv\<rparr>"
      unfolding plot_results_def Let_def g1 g2 ebind_Inr P1 P2 ..
    with g1 g2 P1 P2 ne1 ne2 shape1 shape2 show ?thesis
      by (intro disjI2 exI [of _ "\<lparr>ax0_density = P1, ax0_levels = lv, ax1_density = P2, ax1_levels = lv\<rparr>"]
          exI [of _ ?g1] exI [of _ ?g2]) (simp del: set_concat)
  qed
qed

lemma plot_results_returns:
  assumes "log_P1 x y dy (linspace sl) (linspace il) = Inr g1"
  shows "\<exists>r g2. plot_results x y dy sl il = Inr r
    \<and> log_P2 x y dy (linspace sl) (linspace il) = Inr g2
    \<and> normalized g1 = Inr (ax0_density r) \<and> normalized g2 = Inr (ax1_density r)
    \<and> contour_levels (ax0_density r) = Inr (ax0_levels r) \<and> ax1_levels r = ax0_levels r
    \<and> concat g1 \<noteq> [] \<and> concat g2 \<noteq> []
    \<and> ((\<forall>e \<in> set (concat g1). e = NaN \<or> e = NegInf) \<or> (\<forall>e \<in> set (concat g1). e \<noteq> NaN \<and> e \<noteq> PosInf))
    \<and> ((\<forall>e \<in> set (concat g2). e = NaN \<or> e = NegInf) \<or> (\<forall>e \<in> set (concat g2). e \<noteq> NaN \<and> e \<noteq> PosInf))"
proof -
  from plot_results_structure [of x y dy sl il]
  consider (err) "log_P1 x y dy (linspace sl) (linspace il) = Inl ValueError"
    | (ok) r g1' g2 where "plot_results x y dy sl il = Inr r"
        "log_P1 x y dy (linspace sl) (linspace il) = Inr g1'"
        "log_P2 x y dy (linspace sl) (linspace il) = Inr g2"
        "normalized g1' = Inr (ax0_density r)" "normalized g2 = Inr (ax1_density r)"
        "contour_levels (ax0_density r) = Inr (ax0_levels r)" "ax1_levels r = ax0_levels r"
        "concat g1' \<noteq> []" "concat g2 \<noteq> []"
        "(\<forall>e \<in> set (concat g1'). e = NaN \<or> e = NegInf) \<or> (\<forall>e \<in> set (concat g1'). e \<noteq> NaN \<and> e \<noteq> PosInf)"
        "(\<forall>e \<in> set (concat g2). e = NaN \<or> e = NegInf) \<or> (\<forall>e \<in> set (concat g2). e \<noteq> NaN \<and> e \<noteq> PosInf)"
    by blast
  then show ?thesis
  proof cases
    case err
    with assms show ?thesis by simp
  next
    case ok
    from ok(2) assms have "g1' = g1" by simp
    with ok show ?thesis by blast
  qed
qed

lemma unit_density:
  assumes shape: "(\<forall>e \<in> set (concat g). e = NaN \<or> e = NegInf) \<or> (\<forall>e \<in> set (concat g). e \<noteq> NaN \<and> e \<noteq> PosInf)"
    and some: "\<exists>v. Fin v \<in> set (concat g)"
    and norm: "normalized g = Inr P"
  shows "np_max (concat P) = Inr (Fin 1) \<and> (\<forall>e \<in> set (concat P). \<exists>v. 0 \<le> v \<and> e = Fin v)"
proof -
  have fin: "\<forall>e \<in> set (concat g). e \<noteq> NaN \<and> e \<noteq> PosInf"
    using shape
  proof
    assume out: "\<forall>e \<in> set (concat g). e = NaN \<or> e = NegInf"
    from some obtain v where "Fin v \<in> set (concat g)" ..
    with out have "Fin v = NaN \<or> Fin v = NegInf" by blast
    then show ?thesis by simp
  qed
  from normalized_unit_max [OF fin some] obtain R where
    R: "normalized g = Inr (map (map Fin) R)" "\<forall>v \<in> set (concat R). 0 \<le> v \<and> v \<le> 1"
       "np_max (concat (map (map Fin) R)) = Inr (Fin 1)"
    by blast
  from R(1) norm have P: "P = map (map Fin) R" by simp
  have "concat P = map Fin (concat R)"
    unfolding P by (rule concat_map_map)
  with R(2) have "\<forall>e \<in> set (concat P). \<exists>v. 0 \<le> v \<and> e = Fin v"
    by auto
  with R(3) P show ?thesis by simp
qed

lemma nan_density:
  assumes ne: "concat g \<noteq> []" and neg: "\<forall>e \<in> set (concat g). e = NegInf"
    and norm: "normalized g = Inr P"
  shows "\<forall>e \<in> set (concat P). e = NaN"
proof -
  from normalized_all_NegInf [OF ne neg] norm have "P = map (map (\<lambda>_. NaN)) g" by simp
  then have "concat P = map (\<lambda>_. NaN) (concat g)"
    by (simp add: concat_map_map)
  then show ?thesis by simp
qed

subsection \<open>Grids at concrete limits\<close>

lemma log_grid_values:
  assumes len: "length y = length x" "length dy = length x"
  shows "\<exists>c q. (\<forall>b m. log_likelihood [b, m] x y dy = Inr (c b m))
      \<and> (\<forall>b m. log_symmetric_prior [NpFloat b, NpFloat m] = Inr (q b m))
      \<and> log_P1 x y dy sr ir
          = Inr (map (\<lambda>b. map (\<lambda>m. fl_add (c b m) (log_flat_prior [b, m])) sr) ir)
      \<and> log_P2 x y dy sr ir = Inr (map (\<lambda>b. map (\<lambda>m. fl_add (c b m) (q b m)) sr) ir)"
proof -
  have "\<exists>r. log_likelihood [b, m] x y dy = Inr r" for b m
    using log_likelihood_same [OF _ len, of "[b, m]"] by simp
  then obtain c where c: "\<And>b m. log_likelihood [b, m] x y dy = Inr (c b m)"
    by metis
  from symmetric_prior_values obtain q where
    q: "\<And>b m. log_symmetric_prior [NpFloat b, NpFloat m] = Inr (q b m)"
    by blast
  from grids_of_values [of x y dy c q, OF c q] c q show ?thesis
    by (intro exI [of _ c] exI [of _ q]) simp
qed

lemma flat_grid_finite_entry:
  assumes len: "length y = length x" "length dy = length x"
    and g: "log_P1 x y dy sr ir = Inr g"
    and bm: "b \<in> set ir" "m \<in> set sr" "\<bar>b\<bar> < 1000" "\<bar>m\<bar> < 1000"
    and fin: "log_likelihood [b, m] x y dy = Inr (Fin v)"
  shows "\<exists>v. Fin v \<in> set (concat g)"
proof -
  from log_grid_values [OF len, of sr ir] g obtain c where
    c: "\<And>b m. log_likelihood [b, m] x y dy = Inr (c b m)"
    and gv: "g = map (\<lambda>b. map (\<lambda>m. fl_add (c b m) (log_flat_prior [b, m])) sr) ir"
    by auto
  from c [of b m] fin have "c b m = Fin v" by simp
  moreover have "fl_add (c b m) (log_flat_prior [b, m]) \<in> set (concat g)"
    unfolding gv grid_entries using bm(1,2) by blast
  ultimately have "fl_add (Fin v) (log_flat_prior [b, m]) \<in> set (concat g)" by simp
  moreover have "log_flat_prior [b, m] = Fin 0"
    using bm(3,4) by (simp add: log_flat_prior_def)
  ultimately have "Fin (v + 0) \<in> set (concat g)" by simp
  then show ?thesis ..
qed

lemma symmetric_grid_finite_entry:
  assumes len: "length y = length x" "length dy = length x"
    and g: "log_P2 x y dy sr ir = Inr g"
    and bm: "b \<in> set ir" "m \<in> set sr"
    and fin: "log_likelihood [b, m] x y dy = Inr (Fin v)"
    and pr: "log_symmetric_prior [NpFloat b, NpFloat m] = Inr (Fin w)"
  shows "\<exists>v. Fin v \<in> set (concat g)"
proof -
  from log_grid_values [OF len, of sr ir] g obtain c q where
    c: "\<And>b m. log_likelihood [b, m] x y dy = Inr (c b m)"
    and q: "\<And>b m. log_symmetric_prior [NpFloat b, NpFloat m] = Inr (q b m)"
    and gv: "g = map (\<lambda>b. map (\<lambda>m. fl_add (c b m) (q b m)) sr) ir"
    by auto
  from c [of b m] fin have "c b m = Fin v" by simp
  moreover from q [of b m] pr have "q b m = Fin w" by simp
  moreover have "fl_add (c b m) (q b m) \<in> set (concat g)"
    unfolding gv grid_entries using bm(1,2) by blast
  ultimately have "Fin (v + w) \<in> set (concat g)" by simp
  then show ?thesis ..
qed

lemma constant_grid: "map (\<lambda>b. map (\<lambda>m. c) sr) ir = replicate (length ir) (replicate (length sr) c)"
  by (simp add: map_replicate_const)

lemma fl_add_NegInf: "c \<noteq> NaN \<Longrightarrow> c \<noteq> PosInf \<Longrightarrow> fl_add c NegInf = NegInf"
  by (cases c) simp_all

lemma rejected_grids:
  assumes len: "length y = length x" "length dy = length x"
    and ok: "\<forall>d \<in> set dy. \<not> (d * d \<le> min_round \<or> max_round \<le> d * d)"
    and far: "\<forall>b \<in> set ir. 1000 \<le> \<bar>b\<bar>"
  shows "log_P1 x y dy sr ir = Inr (replicate (length ir) (replicate (length sr) NegInf))"
    and "log_P2 x y dy sr ir = Inr (replicate (length ir) (replicate (length sr) NegInf))"
proof -
  from log_grid_values [OF len, of sr ir] obtain c q where
    c: "\<And>b m. log_likelihood [b, m] x y dy = Inr (c b m)"
    and q: "\<And>b m. log_symmetric_prior [NpFloat b, NpFloat m] = Inr (q b m)"
    and g1: "log_P1 x y dy sr ir
          = Inr (map (\<lambda>b. map (\<lambda>m. fl_add (c b m) (log_flat_prior [b, m])) sr) ir)"
    and g2: "log_P2 x y dy sr ir = Inr (map (\<lambda>b. map (\<lambda>m. fl_add (c b m) (q b m)) sr) ir)"
    by blast
  have cc: "c b m \<noteq> NaN" "c b m \<noteq> PosInf" for b m
    using log_likelihood_inside [OF _ len ok, of "[b, m]"] c [of b m] by auto
  have p1: "log_flat_prior [b, m] = NegInf" if "b \<in> set ir" for b m
    using far that by (auto simp: log_flat_prior_def)
  have p2: "q b m = NegInf" if "b \<in> set ir" for b m
  proof -
    from far that have "1000 \<le> \<bar>b\<bar>" by blast
    then have "log_symmetric_prior [NpFloat b, NpFloat m] = Inr NegInf"
      by (simp add: log_symmetric_prior_pair)
    with q [of b m] show ?thesis by simp
  qed
  have "map (\<lambda>b. map (\<lambda>m. fl_add (c b m) (log_flat_prior [b, m])) sr) ir
        = map (\<lambda>b. map (\<lambda>m. NegInf) sr) ir"
    using p1 cc by (auto intro!: map_cong simp: fl_add_NegInf)
  with g1 show "log_P1 x y dy sr ir = Inr (replicate (length ir) (replicate (length sr) NegInf))"
    by (simp add: constant_grid)
  have "map (\<lambda>b. map (\<lambda>m. fl_add (c b m) (q b m)) sr) ir = map (\<lambda>b. map (\<lambda>m. NegInf) sr) ir"
    using p2 cc by (auto intro!: map_cong simp: fl_add_NegInf)
  with g2 show "log_P2 x y dy sr ir = Inr (replicate (length ir) (replicate (length sr) NegInf))"
    by (simp add: constant_grid)
qed

lemma far_intercepts: "\<forall>b \<in> set (linspace (2000, 3000)). 1000 \<le> \<bar>b\<bar>"
proof
  fix b :: real assume "b \<in> set (linspace (2000, 3000))"
  then have "2000 \<le> b" using linspace_lower [of 2000 3000 b] by simp
  then show "1000 \<le> \<bar>b\<bar>" by simp
qed

lemma unit_sigma_inside: "\<forall>d \<in> set [1 :: real]. \<not> (d * d \<le> min_round \<or> max_round \<le> d * d)"
  by (simp add: min_round_def max_round_def)

lemma example_cell:
  "\<exists>v. log_likelihood [15, 3 / 10] [0] [3] [1] = Inr (Fin v)"
  "\<exists>w. log_symmetric_prior [NpFloat 15, NpFloat (3 / 10)] = Inr (Fin w)"
proof -
  show "\<exists>v. log_likelihood [15, 3 / 10] [0] [3] [1] = Inr (Fin v)"
    using log_likelihood_in_range [of "[15, 3 / 10]" "[3]" "[0]" "[1]"]
    by simp
  show "\<exists>w. log_symmetric_prior [NpFloat 15, NpFloat (3 / 10)] = Inr (Fin w)"
    using log_symmetric_prior_mid [of "NpFloat 15" "NpFloat (3 / 10)"] by simp
qed

subsection \<open>The claims on the grid evaluation\<close>

text \<open>
  C2: whenever the flat-prior log-posterior grid is computed (the shapes of \<open>x\<close>, \<open>y\<close> and
  \<open>dy\<close> fit), \<open>plot_results\<close> returns normally, its two density grids are the normalised
  log-posterior grids, and each log-posterior grid that has at least one finite entry gives
  a density grid whose maximum is exactly 1 and whose entries are all finite and
  non-negative.
\<close>

theorem normalized_density_unit_max:
  "log_P1 x y dy (linspace sl) (linspace il) = Inr g1 \<Longrightarrow>
   \<exists>r g2. plot_results x y dy sl il = Inr r \<and> normalized g1 = Inr (ax0_density r)
     \<and> log_P2 x y dy (linspace sl) (linspace il) = Inr g2 \<and> normalized g2 = Inr (ax1_density r)
     \<and> ((\<exists>v. Fin v \<in> set (concat g1)) \<longrightarrow>
          np_max (concat (ax0_density r)) = Inr (Fin 1)
          \<and> (\<forall>e \<in> set (concat (ax0_density r)). \<exists>v. 0 \<le> v \<and> e = Fin v))
     \<and> ((\<exists>v. Fin v \<in> set (concat g2)) \<longrightarrow>
          np_max (concat (ax1_density r)) = Inr (Fin 1)
          \<and> (\<forall>e \<in> set (concat (ax1_density r)). \<exists>v. 0 \<le> v \<and> e = Fin v))"
proof -
  assume g1: "log_P1 x y dy (linspace sl) (linspace il) = Inr g1"
  from plot_results_returns [OF g1] obtain r g2 where
    s: "plot_results x y dy sl il = Inr r"
       "log_P2 x y dy (linspace sl) (linspace il) = Inr g2"
       "normalized g1 = Inr (ax0_density r)" "normalized g2 = Inr (ax1_density r)"
    and shape1: "(\<forall>e \<in> set (concat g1). e = NaN \<or> e = NegInf) \<or> (\<forall>e \<in> set (concat g1). e \<noteq> NaN \<and> e \<noteq> PosInf)"
    and shape2: "(\<forall>e \<in> set (concat g2). e = NaN \<or> e = NegInf) \<or> (\<forall>e \<in> set (concat g2). e \<noteq> NaN \<and> e \<noteq> PosInf)"
    by blast
  have a: "np_max (concat (ax0_density r)) = Inr (Fin 1)
          \<and> (\<forall>e \<in> set (concat (ax0_density r)). \<exists>v. 0 \<le> v \<and> e = Fin v)"
    if "\<exists>v. Fin v \<in> set (concat g1)"
    using unit_density [OF shape1 that s(3)] .
  have b: "np_max (concat (ax1_density r)) = Inr (Fin 1)
          \<and> (\<forall>e \<in> set (concat (ax1_density r)). \<exists>v. 0 \<le> v \<and> e = Fin v)"
    if "\<exists>v. Fin v \<in> set (concat g2)"
    using unit_density [OF shape2 that s(4)] .
  from s a b show ?thesis by blast
qed

theorem normalized_density_unit_max_witness:
  "\<exists>g1 r. log_P1 [0] [3] [1] (linspace (3 / 10, 7 / 10)) (linspace (15, 35)) = Inr g1
        \<and> plot_results [0] [3] [1] (3 / 10, 7 / 10) (15, 35) = Inr r
        \<and> normalized g1 = Inr (ax0_density r)
        \<and> np_max (concat (ax0_density r)) = Inr (Fin 1)
        \<and> np_max (concat (ax1_density r)) = Inr (Fin 1)"
proof -
  have len: "length [3 :: real] = length [0 :: real]" "length [1 :: real] = length [0 :: real]"
    by simp_all
  from log_grid_values [OF len, of "linspace (3 / 10, 7 / 10)" "linspace (15, 35)"] obtain g1 where
    g1: "log_P1 [0] [3] [1] (linspace (3 / 10, 7 / 10)) (linspace (15, 35)) = Inr g1"
    by blast
  from example_cell obtain v w where
    v: "log_likelihood [15, 3 / 10] [0] [3] [1] = Inr (Fin v)"
    and w: "log_symmetric_prior [NpFloat 15, NpFloat (3 / 10)] = Inr (Fin w)"
    by blast
  from normalized_density_unit_max [OF g1] obtain r g2 where
    r: "plot_results [0] [3] [1] (3 / 10, 7 / 10) (15, 35) = Inr r"
       "normalized g1 = Inr (ax0_density r)"
    and g2: "log_P2 [0] [3] [1] (linspace (3 / 10, 7 / 10)) (linspace (15, 35)) = Inr g2"
    and u1: "(\<exists>v. Fin v \<in> set (concat g1)) \<longrightarrow> np_max (concat (ax0_density r)) = Inr (Fin 1)
          \<and> (\<forall>e \<in> set (concat (ax0_density r)). \<exists>v. 0 \<le> v \<and> e = Fin v)"
    and u2: "(\<exists>v. Fin v \<in> set (concat g2)) \<longrightarrow> np_max (concat (ax1_density r)) = Inr (Fin 1)
          \<and> (\<forall>e \<in> set (concat (ax1_density r)). \<exists>v. 0 \<le> v \<and> e = Fin v)"
    by blast
  have "\<exists>v. Fin v \<in> set (concat g1)"
    by (rule flat_grid_finite_entry [OF len g1 linspace_start linspace_start _ _ v]) simp_all
  moreover have "\<exists>v. Fin v \<in> set (concat g2)"
    by (rule symmetric_grid_finite_entry [OF len g2 linspace_start linspace_start v w])
  ultimately show ?thesis using g1 r u1 u2 by blast
qed

text \<open>
  C4, as the code has it: when every grid point of a log-posterior grid is \<open>-inf\<close>, nothing
  is reported. \<open>plot_results\<close> returns normally and the density grid, which is not empty,
  is \<open>nan\<close> at every grid point.
\<close>

theorem all_rejected_grid_is_nan:
  "log_P1 x y dy (linspace sl) (linspace il) = Inr g1 \<Longrightarrow>
   \<exists>r g2. plot_results x y dy sl il = Inr r \<and> normalized g1 = Inr (ax0_density r)
     \<and> log_P2 x y dy (linspace sl) (linspace il) = Inr g2 \<and> normalized g2 = Inr (ax1_density r)
     \<and> concat (ax0_density r) \<noteq> [] \<and> concat (ax1_density r) \<noteq> []
     \<and> ((\<forall>e \<in> set (concat g1). e = NegInf) \<longrightarrow> (\<forall>e \<in> set (concat (ax0_density r)). e = NaN))
     \<and> ((\<forall>e \<in> set (concat g2). e = NegInf) \<longrightarrow> (\<forall>e \<in> set (concat (ax1_density r)). e = NaN))"
proof -
  assume g1: "log_P1 x y dy (linspace sl) (linspace il) = Inr g1"
  from plot_results_returns [OF g1] obtain r g2 where
    s: "plot_results x y dy sl il = Inr r"
       "log_P2 x y dy (linspace sl) (linspace il) = Inr g2"
       "normalized g1 = Inr (ax0_density r)" "normalized g2 = Inr (ax1_density r)"
    and ne: "concat g1 \<noteq> []" "concat g2 \<noteq> []"
    by blast
  have ne': "concat (ax0_density r) \<noteq> []" "concat (ax1_density r) \<noteq> []"
    using normalized_length [OF s(3)] normalized_length [OF s(4)] ne
    by (metis length_0_conv)+
  have a: "\<forall>e \<in> set (concat (ax0_density r)). e = NaN" if "\<forall>e \<in> set (concat g1). e = NegInf"
    using nan_density [OF ne(1) that s(3)] .
  have b: "\<forall>e \<in> set (concat (ax1_density r)). e = NaN" if "\<forall>e \<in> set (concat g2). e = NegInf"
    using nan_density [OF ne(2) that s(4)] .
  from s ne' a b show ?thesis by blast
qed

theorem all_rejected_grid_is_nan_witness:
  "\<exists>r. plot_results [0] [3] [1] (3 / 10, 7 / 10) (2000, 3000) = Inr r
      \<and> concat (ax0_density r) \<noteq> [] \<and> (\<forall>e \<in> set (concat (ax0_density r)). e = NaN)
      \<and> concat (ax1_density r) \<noteq> [] \<and> (\<forall>e \<in> set (concat (ax1_density r)). e = NaN)"
proof -
  have len: "length [3 :: real] = length [0 :: real]" "length [1 :: real] = length [0 :: real]"
    by simp_all
  let ?g = "replicate (length (linspace (2000, 3000))) (replicate (length (linspace (3 / 10, 7 / 10))) NegInf)"
  have g1: "log_P1 [0] [3] [1] (linspace (3 / 10, 7 / 10)) (linspace (2000, 3000)) = Inr ?g"
    by (rule rejected_grids(1) [OF len unit_sigma_inside far_intercepts])
  have g2: "log_P2 [0] [3] [1] (linspace (3 / 10, 7 / 10)) (linspace (2000, 3000)) = Inr ?g"
    by (rule rejected_grids(2) [OF len unit_sigma_inside far_intercepts])
  have neg: "\<forall>e \<in> set (concat ?g). e = NegInf" by auto
  from all_rejected_grid_is_nan [OF g1] obtain r g2' where
    r: "plot_results [0] [3] [1] (3 / 10, 7 / 10) (2000, 3000) = Inr r"
    and g2': "log_P2 [0] [3] [1] (linspace (3 / 10, 7 / 10)) (linspace (2000, 3000)) = Inr g2'"
    and ne: "concat (ax0_density r) \<noteq> []" "concat (ax1_density r) \<noteq> []"
    and n1: "(\<forall>e \<in> set (concat ?g). e = NegInf) \<longrightarrow> (\<forall>e \<in> set (concat (ax0_density r)). e = NaN)"
    and n2: "(\<forall>e \<in> set (concat g2'). e = NegInf) \<longrightarrow> (\<forall>e \<in> set (concat (ax1_density r)). e = NaN)"
    by blast
  from g2 g2' have "g2' = ?g" by simp
  with neg n1 n2 r ne show ?thesis by blast
qed

text \<open>
  The claim C4 as written fails: with intercept limits from 2000 to 3000 every grid point
  violates the flat prior, the log-posterior grid is \<open>-inf\<close> everywhere, and the call
  returns a 50 by 50 grid of \<open>nan\<close> instead of an error.
\<close>

theorem all_rejected_not_reported_counterexample:
  "log_P1 [0] [3] [1] (linspace (3 / 10, 7 / 10)) (linspace (2000, 3000))
     = Inr (replicate 50 (replicate 50 NegInf))
   \<and> map_sum id ax0_density (plot_results [0] [3] [1] (3 / 10, 7 / 10) (2000, 3000))
     = Inr (replicate 50 (replicate 50 NaN))"
proof -
  have len: "length [3 :: real] = length [0 :: real]" "length [1 :: real] = length [0 :: real]"
    by simp_all
  let ?g = "replicate 50 (replicate 50 NegInf)"
  have g1: "log_P1 [0] [3] [1] (linspace (3 / 10, 7 / 10)) (linspace (2000, 3000)) = Inr ?g"
    using rejected_grids(1) [OF len unit_sigma_inside far_intercepts, of "linspace (3 / 10, 7 / 10)"]
    by (simp only: length_linspace)
  have "concat ?g \<noteq> []" by simp
  moreover have "\<forall>e \<in> set (concat ?g). e = NegInf" by auto
  ultimately have "normalized ?g = Inr (map (map (\<lambda>_. NaN)) ?g)"
    by (rule normalized_all_NegInf)
  then have norm: "normalized ?g = Inr (replicate 50 (replicate 50 NaN))"
    by (simp only: map_replicate)
  from plot_results_returns [OF g1] obtain r where
    r: "plot_results [0] [3] [1] (3 / 10, 7 / 10) (2000, 3000) = Inr r"
       "normalized ?g = Inr (ax0_density r)"
    by blast
  from r(2) norm have "ax0_density r = replicate 50 (replicate 50 NaN)" by (simp only: sum.inject)
  with r(1) g1 show ?thesis by (simp only: map_sum.simps id_apply simp_thms)
qed

text \<open>
  C10: whenever \<open>plot_results\<close> returns, the first panel shows the flat-prior density and
  the second the symmetric-prior density, and the contour levels handed to both panels are
  \<open>contour_levels\<close> of the flat-prior density of the first panel; the levels of the
  symmetric-prior density are not used.
\<close>

theorem contour_levels_from_flat_grid:
  "plot_results x y dy sl il = Inr r \<Longrightarrow>
   (\<exists>g1. log_P1 x y dy (linspace sl) (linspace il) = Inr g1 \<and> normalized g1 = Inr (ax0_density r))
   \<and> (\<exists>g2. log_P2 x y dy (linspace sl) (linspace il) = Inr g2 \<and> normalized g2 = Inr (ax1_density r))
   \<and> contour_levels (ax0_density r) = Inr (ax0_levels r)
   \<and> contour_levels (ax0_density r) = Inr (ax1_levels r)"
  unfolding plot_results_def Let_def ebind_def
  by (auto split: sum.splits)

theorem contour_levels_from_flat_grid_witness:
  "\<exists>r. plot_results [0] [3] [1] (3 / 10, 7 / 10) (15, 35) = Inr r
      \<and> contour_levels (ax0_density r) = Inr (ax0_levels r)
      \<and> contour_levels (ax0_density r) = Inr (ax1_levels r)"
proof -
  have len: "length [3 :: real] = length [0 :: real]" "length [1 :: real] = length [0 :: real]"
    by simp_all
  from log_grid_values [OF len, of "linspace (3 / 10, 7 / 10)" "linspace (15, 35)"] obtain g1 where
    g1: "log_P1 [0] [3] [1] (linspace (3 / 10, 7 / 10)) (linspace (15, 35)) = Inr g1"
    by blast
  from plot_results_returns [OF g1] obtain r where
    r: "plot_results [0] [3] [1] (3 / 10, 7 / 10) (15, 35) = Inr r"
    by blast
  from contour_levels_from_flat_grid [OF r] r show ?thesis by blast
qed

end
